theory Spec2Isabelle
  imports Main "HOL-Library.Char_ord" "HOL-Library.List_Lexorder"
begin

section \<open>Data model\<close>

text \<open>
  The operators of \<^verbatim>\<open>ioOperators.py\<close> are Python 2 code: \<^verbatim>\<open>/\<close> between two
  integers is floor division (the source writes \<^verbatim>\<open>1/3.0\<close> where it wants a float).
  Counters, indices and the extents that stay Python integers are never negative (they
  come from \<^verbatim>\<open>len\<close>, \<^verbatim>\<open>range\<close> and array shapes), so they are natural numbers
  here. Where the source computes on numpy arrays (\<^verbatim>\<open>computeRequestSlicings\<close>) the
  elements are 64-bit signed integers: they are integers here, and every arithmetic
  result is wrapped into the 64-bit range.
\<close>

datatype py_error =
    IndexError
  | KeyError
  | ZeroDivisionError
  | AssertionError
  | ValueError
  | RuntimeError string
  | FileOpenError string

text \<open>
  An axis is identified by its key (\<^verbatim>\<open>tag.key\<close>), a string; axistags are the ordered
  keys. A slicing (the result of \<^verbatim>\<open>roiToSlice(start, stop)\<close>) is one
  \<^verbatim>\<open>slice(start, stop)\<close> per axis; its bounds are elements of numpy arrays. The
  slicing of a request to the stack loader (\<^verbatim>\<open>roi.toSlice()\<close>) has bounds that are
  not negative.
\<close>

type_synonym axistags = "string list"
type_synonym slicing = "(int \<times> int) list"
type_synonym roi_slicing = "(nat \<times> nat) list"

text \<open>
  \<^verbatim>\<open>axistags.index(key)\<close> of vigra: the position of the key, or
  \<^verbatim>\<open>len(axistags)\<close> when the key is absent (the guard
  \<^verbatim>\<open>if index_ >= len(dataShape)\<close> of \<^verbatim>\<open>OpStackToH5Writer.execute\<close> relies on this).
\<close>

fun axistags_index :: "axistags \<Rightarrow> string \<Rightarrow> nat" where
  "axistags_index [] k = 0"
| "axistags_index (a # as) k = (if a = k then 0 else Suc (axistags_index as k))"

section \<open>Chunk shape\<close>

text \<open>Lines 207-211: the channel count in \<^verbatim>\<open>OpStackToH5Writer.execute\<close>.\<close>

definition OpStackToH5Writer_numChannels :: "nat list \<Rightarrow> axistags \<Rightarrow> nat" where
  "OpStackToH5Writer_numChannels dataShape axistags =
     (let idx = axistags_index axistags ''c'' in
      if idx \<ge> length dataShape then 1 else dataShape ! idx)"

text \<open>
  Line 309: the channel count in \<^verbatim>\<open>OpH5WriterBigDataset.setupOutputs\<close>,
  \<^verbatim>\<open>dataShape[ axistags.index('c') ]\<close>; indexing a tuple out of range raises.
\<close>

definition OpH5WriterBigDataset_numChannels :: "nat list \<Rightarrow> axistags \<Rightarrow> py_error + nat" where
  "OpH5WriterBigDataset_numChannels dataShape axistags =
     (let i = axistags_index axistags ''c'' in
      if i < length dataShape then Inr (dataShape ! i) else Inl IndexError)"

definition chunkDims :: "nat \<Rightarrow> nat \<Rightarrow> string \<rightharpoonup> nat" where
  "chunkDims cubeDim numChannels =
     [''t'' \<mapsto> 1, ''x'' \<mapsto> cubeDim, ''y'' \<mapsto> cubeDim, ''z'' \<mapsto> cubeDim,
      ''c'' \<mapsto> numChannels]"

text \<open>
  The loop \<^verbatim>\<open>for i in range(len(dataShape))\<close> that clamps the chunk to the data:
  \<^verbatim>\<open>axistags[i]\<close> raises when the tags are shorter than the shape, the dictionary
  lookup raises on a key outside \<^verbatim>\<open>chunkDims\<close>.
\<close>

fun clampChunk :: "(string \<rightharpoonup> nat) \<Rightarrow> nat list \<Rightarrow> axistags \<Rightarrow> py_error + nat list" where
  "clampChunk dims [] tags = Inr []"
| "clampChunk dims (s # ss) [] = Inl IndexError"
| "clampChunk dims (s # ss) (axisKey # tags) =
     (case dims axisKey of
        None \<Rightarrow> Inl KeyError
      | Some c \<Rightarrow>
          (case clampChunk dims ss tags of
             Inl e \<Rightarrow> Inl e
           | Inr chunkShape \<Rightarrow> Inr (min c s # chunkShape)))"

text \<open>
  Lines 213-232 and 311-330, the same in both writers. \<open>pow_third q\<close> stands for
  \<^verbatim>\<open>int(math.pow(q, 1/3.0))\<close>, a floating-point computation that is a parameter of
  the model; the code's own assertion is a branch.
\<close>

definition computeChunkShape ::
    "(nat \<Rightarrow> nat) \<Rightarrow> nat list \<Rightarrow> axistags \<Rightarrow> nat \<Rightarrow> nat \<Rightarrow> py_error + nat list" where
  "computeChunkShape pow_third dataShape axistags numChannels dtypeBytes =
     (if numChannels * dtypeBytes = 0 then Inl ZeroDivisionError
      else
        let cubeDim = pow_third (300000 div (numChannels * dtypeBytes)) in
        if \<not> cubeDim * cubeDim * cubeDim * numChannels * dtypeBytes \<le> 300000
        then Inl AssertionError
        else clampChunk (chunkDims cubeDim numChannels) dataShape axistags)"

definition OpStackToH5Writer_chunkShape ::
    "(nat \<Rightarrow> nat) \<Rightarrow> nat list \<Rightarrow> axistags \<Rightarrow> nat \<Rightarrow> py_error + nat list" where
  "OpStackToH5Writer_chunkShape pow_third dataShape axistags dtypeBytes =
     computeChunkShape pow_third dataShape axistags
       (OpStackToH5Writer_numChannels dataShape axistags) dtypeBytes"

definition OpH5WriterBigDataset_chunkShape ::
    "(nat \<Rightarrow> nat) \<Rightarrow> nat list \<Rightarrow> axistags \<Rightarrow> nat \<Rightarrow> py_error + nat list" where
  "OpH5WriterBigDataset_chunkShape pow_third dataShape axistags dtypeBytes =
     (case OpH5WriterBigDataset_numChannels dataShape axistags of
        Inl e \<Rightarrow> Inl e
      | Inr numChannels \<Rightarrow>
          computeChunkShape pow_third dataShape axistags numChannels dtypeBytes)"

text \<open>
  The exact integer cube root, \<open>\<lfloor>q powr (1/3)\<rfloor>\<close>, one possible value of
  \<open>pow_third\<close>. The floating-point \<^verbatim>\<open>int(math.pow(q, 1/3.0))\<close> agrees with it except
  at perfect cubes, where the float may fall just below the root and the result is one
  less (125 gives 4); it is used below only at 0 and 75, where both agree.
\<close>

function icbrt_from :: "nat \<Rightarrow> nat \<Rightarrow> nat" where
  "icbrt_from q k = (if (k + 1) * (k + 1) * (k + 1) \<le> q then icbrt_from q (k + 1) else k)"
  by pat_completeness auto
termination
proof (relation "measure (\<lambda>(q, k). q - k)")
  show "wf (measure (\<lambda>(q, k). q - k))" by simp
next
  fix q k :: nat
  assume a: "(k + 1) * (k + 1) * (k + 1) \<le> q"
  have "(k + 1) * 1 \<le> (k + 1) * ((k + 1) * (k + 1))"
    by (rule mult_le_mono2) simp
  then have "k + 1 \<le> q" using a by (simp add: mult.assoc)
  then show "((q, k + 1), (q, k)) \<in> measure (\<lambda>(q, k). q - k)" by simp
qed

declare icbrt_from.simps [simp del]

definition icbrt :: "nat \<Rightarrow> nat" where
  "icbrt q = icbrt_from q 0"

definition is_spatial :: "string \<Rightarrow> bool" where
  "is_spatial k = (k = ''x'' \<or> k = ''y'' \<or> k = ''z'')"

section \<open>Request tiling\<close>

text \<open>A comprehension or loop over a list whose body may raise: the first error wins.\<close>

fun collect :: "('a \<Rightarrow> py_error + 'b) \<Rightarrow> 'a list \<Rightarrow> py_error + 'b list" where
  "collect f [] = Inr []"
| "collect f (x # xs) =
     (case f x of
        Inl e \<Rightarrow> Inl e
      | Inr y \<Rightarrow> (case collect f xs of Inl e \<Rightarrow> Inl e | Inr ys \<Rightarrow> Inr (y # ys)))"

definition dict_get :: "(string \<rightharpoonup> int) \<Rightarrow> string \<Rightarrow> py_error + int" where
  "dict_get d k = (case d k of None \<Rightarrow> Inl KeyError | Some v \<Rightarrow> Inr v)"

definition multipliers :: "string \<rightharpoonup> int" where
  "multipliers = [''x'' \<mapsto> 5, ''y'' \<mapsto> 5, ''z'' \<mapsto> 5, ''t'' \<mapsto> 1, ''c'' \<mapsto> 100]"

text \<open>
  The value a numpy \<^verbatim>\<open>int64\<close> holds after an arithmetic result \<open>x\<close>: results outside
  the range wrap around silently.
\<close>

definition int64 :: "int \<Rightarrow> int" where
  "int64 x = (x + 2 ^ 63) mod 2 ^ 64 - 2 ^ 63"

text \<open>
  An elementwise numpy operation on two one-dimensional \<^verbatim>\<open>int64\<close> arrays: equal
  lengths, or one of them of length one (broadcast); anything else raises.
\<close>

definition np_binop :: "(int \<Rightarrow> int \<Rightarrow> int) \<Rightarrow> int list \<Rightarrow> int list \<Rightarrow> py_error + int list" where
  "np_binop f xs ys =
     (if length xs = length ys then Inr (map2 (\<lambda>x y. int64 (f x y)) xs ys)
      else if length xs = 1 then Inr (map (\<lambda>y. int64 (f (hd xs) y)) ys)
      else if length ys = 1 then Inr (map (\<lambda>x. int64 (f x (hd ys))) xs)
      else Inl ValueError)"

text \<open>
  \<^verbatim>\<open>range(0, stop, step)\<close>: a zero step raises, a positive step counts up while
  below \<open>stop\<close>, a negative step counts down while above \<open>stop\<close>. The list is taken to
  fit in memory.
\<close>

definition py_range :: "int \<Rightarrow> int \<Rightarrow> py_error + int list" where
  "py_range stop step =
     (if step = 0 then Inl ValueError
      else if 0 < step
        then Inr (map (\<lambda>k. int k * step) [0..<nat ((stop + step - 1) div step)])
      else Inr (map (\<lambda>k. int k * step) [0..<nat ((- stop - step - 1) div (- step))]))"

text \<open>
  The body of the loop of \<^verbatim>\<open>computeRequestSlicings\<close> (lines 425-427):
  \<^verbatim>\<open>roiToSlice(start, stop)\<close> pairs each start with its stop.
\<close>

definition requestSlicing :: "int list \<Rightarrow> int list \<Rightarrow> int list \<Rightarrow> py_error + slicing" where
  "requestSlicing shape shift indices =
     (case np_binop (+) indices shift of
        Inl e \<Rightarrow> Inl e
      | Inr moved \<Rightarrow>
          (case np_binop min moved shape of
             Inl e \<Rightarrow> Inl e
           | Inr stop \<Rightarrow> Inr (zip indices stop)))"

text \<open>
  \<^verbatim>\<open>OpH5WriterBigDataset.computeRequestSlicings\<close> (lines 401-428), from the shape and
  axistags of the input and the chunk shape kept by \<^verbatim>\<open>setupOutputs\<close>. The arguments
  \<open>shape\<close> and \<open>chunkShape\<close> are the \<^verbatim>\<open>int64\<close> arrays that \<^verbatim>\<open>numpy.asarray\<close>
  builds (lines 403 and 405): the extents of an array are below \<open>2 ^ 63\<close>, so the
  conversion keeps them. \<^verbatim>\<open>itertools.product\<close> is \<^const>\<open>product_lists\<close>: the last
  axis varies fastest.
\<close>

definition computeRequestSlicings ::
    "int list \<Rightarrow> axistags \<Rightarrow> int list \<Rightarrow> py_error + slicing list" where
  "computeRequestSlicings shape axistags chunkShape =
     (case collect (dict_get multipliers) axistags of
        Inl e \<Rightarrow> Inl e
      | Inr multiplier \<Rightarrow>
     (case np_binop (*) chunkShape multiplier of
        Inl e \<Rightarrow> Inl e
      | Inr shift0 \<Rightarrow>
     (case np_binop min shift0 shape of
        Inl e \<Rightarrow> Inl e
      | Inr shift \<Rightarrow>
     (case collect (\<lambda>(stop, step). py_range stop step) (zip shape shift) of
        Inl e \<Rightarrow> Inl e
      | Inr rs \<Rightarrow> collect (requestSlicing shape shift) (product_lists rs)))))"

text \<open>Points of an extent and of a slicing.\<close>

definition in_extent :: "int list \<Rightarrow> int list \<Rightarrow> bool" where
  "in_extent p shape = list_all2 (\<lambda>x n. 0 \<le> x \<and> x < n) p shape"

definition in_slicing :: "int list \<Rightarrow> slicing \<Rightarrow> bool" where
  "in_slicing p s = list_all2 (\<lambda>x (a, b). a \<le> x \<and> x < b) p s"

text \<open>
  The tiling written as a grid, for the proofs: an axis is its extent paired with its
  shift, \<open>range_of\<close> lists the starts along one axis, \<open>tile_of\<close> is the slicing that
  starts at given indices, and \<open>canonical\<close> is the slicing that holds a given point.
\<close>

definition range_of :: "int \<times> int \<Rightarrow> int list" where
  "range_of ax = map (\<lambda>k. int k * snd ax) [0..<nat ((fst ax + snd ax - 1) div snd ax)]"

definition tile_of :: "(int \<times> int) list \<Rightarrow> int list \<Rightarrow> slicing" where
  "tile_of axes idx = map2 (\<lambda>a ax. (a, min (a + snd ax) (fst ax))) idx axes"

definition tiles_of :: "(int \<times> int) list \<Rightarrow> slicing list" where
  "tiles_of axes = map (tile_of axes) (product_lists (map range_of axes))"

definition canonical :: "(int \<times> int) list \<Rightarrow> int list \<Rightarrow> slicing" where
  "canonical axes p =
     map2 (\<lambda>x ax. (x div snd ax * snd ax, min (x div snd ax * snd ax + snd ax) (fst ax))) p axes"

section \<open>The throttled writer\<close>

datatype write_path = write_direct | setitem

record 'a array_block =
  c_contiguous :: bool
  payload :: 'a

text \<open>
  The state of \<^verbatim>\<open>OpH5WriterBigDataset.execute\<close>. A request is identified by the
  slicing it was created for. \<open>progress\<close> lists the values passed to
  \<^verbatim>\<open>progressSignal\<close>, \<open>requested\<close> the requests created on the input slot and
  \<open>dataset\<close> the writes to the dataset, each in the order they happen. Writes to the
  dataset are taken to succeed.
\<close>

record 'a writer_state =
  slicings :: "slicing list"
  activeSlicings :: "slicing list"
  activeRequests :: "slicing list"
  counter :: nat
  progress :: "nat list"
  requested :: "slicing list"
  dataset :: "(slicing \<times> write_path \<times> 'a) list"
  attrs_axistags :: "axistags option"
  succeeded :: bool

type_synonym 'a image_slot = "slicing \<Rightarrow> py_error + 'a array_block"

definition initial_state :: "slicing list \<Rightarrow> 'a writer_state" where
  "initial_state sl =
     \<lparr>slicings = sl, activeSlicings = [], activeRequests = [], counter = 0,
      progress = [0], requested = [], dataset = [], attrs_axistags = None,
      succeeded = False\<rparr>"

text \<open>
  Lines 362-365 and 383-385: \<^verbatim>\<open>slicings.pop()\<close> takes the last element of the list,
  and the request created for it is appended to both deques.
\<close>

definition activate_next :: "'a writer_state \<Rightarrow> py_error + 'a writer_state" where
  "activate_next st =
     (if slicings st = [] then Inl IndexError
      else
        let s = last (slicings st) in
        Inr (st\<lparr>slicings := butlast (slicings st),
                activeSlicings := activeSlicings st @ [s],
                activeRequests := activeRequests st @ [s],
                requested := requested st @ [s]\<rparr>))"

fun activate :: "nat \<Rightarrow> 'a writer_state \<Rightarrow> py_error + 'a writer_state" where
  "activate 0 st = Inr st"
| "activate (Suc n) st =
     (case activate_next st of Inl e \<Rightarrow> Inl e | Inr st' \<Rightarrow> activate n st')"

text \<open>One pass through the body of the \<^verbatim>\<open>while\<close> loop (lines 370-391).\<close>

definition serve_request ::
    "'a image_slot \<Rightarrow> nat \<Rightarrow> 'a writer_state \<Rightarrow> py_error + 'a writer_state" where
  "serve_request imSlot numSlicings st =
     (case activeRequests st of
        [] \<Rightarrow> Inl IndexError
      | req # reqs \<Rightarrow>
     (case activeSlicings st of
        [] \<Rightarrow> Inl IndexError
      | s # ss \<Rightarrow>
     (case imSlot req of
        Inl e \<Rightarrow> Inl e
      | Inr block \<Rightarrow>
          let st1 = st\<lparr>activeRequests := reqs, activeSlicings := ss,
                       dataset := dataset st @
                         [(s, if c_contiguous block then write_direct else setitem,
                           payload block)]\<rparr>
          in
          (case (if slicings st1 \<noteq> [] then activate_next st1 else Inr st1) of
             Inl e \<Rightarrow> Inl e
           | Inr st2 \<Rightarrow>
               if numSlicings = 0 then Inl ZeroDivisionError
               else Inr (st2\<lparr>progress := progress st2 @ [100 * counter st2 div numSlicings],
                             counter := counter st2 + 1\<rparr>)))))"

function streaming ::
    "'a image_slot \<Rightarrow> nat \<Rightarrow> 'a writer_state \<Rightarrow> py_error + 'a writer_state" where
  "streaming imSlot numSlicings st =
     (if activeRequests st = [] then Inr st
      else
        (case serve_request imSlot numSlicings st of
           Inl e \<Rightarrow> Inl e
         | Inr st' \<Rightarrow> streaming imSlot numSlicings st'))"
  by pat_completeness auto
termination
  by (relation "measure (\<lambda>(imSlot, numSlicings, st).
        length (slicings st) + length (activeRequests st))")
     (auto simp: serve_request_def activate_next_def Let_def
        split: list.splits sum.splits if_splits)

declare streaming.simps [simp del]

text \<open>The states in which the \<^verbatim>\<open>while\<close> condition is tested, in order.\<close>

function streaming_states ::
    "'a image_slot \<Rightarrow> nat \<Rightarrow> 'a writer_state \<Rightarrow> 'a writer_state list" where
  "streaming_states imSlot numSlicings st =
     st # (if activeRequests st = [] then []
           else
             (case serve_request imSlot numSlicings st of
                Inl e \<Rightarrow> []
              | Inr st' \<Rightarrow> streaming_states imSlot numSlicings st'))"
  by pat_completeness auto
termination
  by (relation "measure (\<lambda>(imSlot, numSlicings, st).
        length (slicings st) + length (activeRequests st))")
     (auto simp: serve_request_def activate_next_def Let_def
        split: list.splits sum.splits if_splits)

declare streaming_states.simps [simp del]

text \<open>The state in which the \<^verbatim>\<open>while\<close> loop is entered (lines 348-367).\<close>

definition throttled_start :: "slicing list \<Rightarrow> py_error + 'a writer_state" where
  "throttled_start sl =
     (case activate (min 10 (length sl)) (initial_state sl) of
        Inl e \<Rightarrow> Inl e
      | Inr st \<Rightarrow> Inr (st\<lparr>counter := 0\<rparr>))"

text \<open>\<^verbatim>\<open>OpH5WriterBigDataset.execute\<close> (lines 346-399).\<close>

definition OpH5WriterBigDataset_execute ::
    "'a image_slot \<Rightarrow> int list \<Rightarrow> axistags \<Rightarrow> int list \<Rightarrow> py_error + 'a writer_state" where
  "OpH5WriterBigDataset_execute imSlot shape axistags chunkShape =
     (case computeRequestSlicings shape axistags chunkShape of
        Inl e \<Rightarrow> Inl e
      | Inr sl \<Rightarrow>
     (case throttled_start sl of
        Inl e \<Rightarrow> Inl e
      | Inr st \<Rightarrow>
     (case streaming imSlot (length sl) st of
        Inl e \<Rightarrow> Inl e
      | Inr st' \<Rightarrow>
          Inr (st'\<lparr>attrs_axistags := Some axistags, succeeded := True,
                   progress := progress st' @ [100]\<rparr>))))"

text \<open>
  What holds each time the \<^verbatim>\<open>while\<close> condition is tested, for the list \<open>sl\<close> of
  slicings that \<^verbatim>\<open>computeRequestSlicings\<close> returned.
\<close>

definition throttled_inv :: "slicing list \<Rightarrow> 'a writer_state \<Rightarrow> bool" where
  "throttled_inv sl st \<longleftrightarrow>
     activeSlicings st = activeRequests st
     \<and> requested st = map fst (dataset st) @ activeRequests st
     \<and> requested st @ rev (slicings st) = rev sl
     \<and> (slicings st \<noteq> [] \<longrightarrow> activeRequests st \<noteq> [])
     \<and> length (activeRequests st) \<le> min 10 (length sl)
     \<and> counter st = length (dataset st)
     \<and> progress st = 0 # map (\<lambda>k. 100 * k div length sl) [0..<counter st]"

text \<open>An input slot that answers every request with a contiguous block.\<close>

definition contiguous_slot :: "unit image_slot" where
  "contiguous_slot s = Inr \<lparr>c_contiguous = True, payload = ()\<rparr>"

section \<open>The stack to HDF5 writer\<close>

record 'a stack_writer_state =
  stack_progress :: "nat list"
  data :: "(nat \<times> 'a) list"
  stack_succeeded :: bool

text \<open>
  The loop \<^verbatim>\<open>for z in range(numImages)\<close> (lines 250-255); \<open>stack z\<close> is the result
  of waiting for the z-slice of the stack loader's output.
\<close>

fun copy_images ::
    "(nat \<Rightarrow> py_error + 'a) \<Rightarrow> nat \<Rightarrow> nat list \<Rightarrow> 'a stack_writer_state
      \<Rightarrow> py_error + 'a stack_writer_state" where
  "copy_images stack numImages [] st = Inr st"
| "copy_images stack numImages (z # zs) st =
     (case stack z of
        Inl e \<Rightarrow> Inl e
      | Inr img \<Rightarrow>
          if numImages = 0 then Inl ZeroDivisionError
          else copy_images stack numImages zs
                 (st\<lparr>data := data st @ [(z, img)],
                     stack_progress := stack_progress st @ [z * 100 div numImages]\<rparr>))"

text \<open>
  \<^verbatim>\<open>OpStackToH5Writer.execute\<close> (lines 194-262). Creating the dataset and writing to
  it are taken to succeed.
\<close>

definition OpStackToH5Writer_execute ::
    "(nat \<Rightarrow> nat) \<Rightarrow> (nat \<Rightarrow> py_error + 'a) \<Rightarrow> nat list \<Rightarrow> axistags \<Rightarrow> nat
      \<Rightarrow> py_error + 'a stack_writer_state" where
  "OpStackToH5Writer_execute pow_third stack dataShape stackTags dtypeBytes =
     (let zAxis = axistags_index stackTags ''z'' in
      if zAxis \<ge> length dataShape then Inl IndexError
      else
        let numImages = dataShape ! zAxis in
        (case OpStackToH5Writer_chunkShape pow_third dataShape stackTags dtypeBytes of
           Inl e \<Rightarrow> Inl e
         | Inr chunkShape \<Rightarrow>
        (case copy_images stack numImages [0..<numImages]
                \<lparr>stack_progress = [0], data = [], stack_succeeded = False\<rparr> of
           Inl e \<Rightarrow> Inl e
         | Inr st \<Rightarrow>
             Inr (st\<lparr>stack_succeeded := True,
                     stack_progress := stack_progress st @ [100]\<rparr>))))"

text \<open>A stack whose every slice can be read.\<close>

definition blank_stack :: "nat \<Rightarrow> py_error + unit" where
  "blank_stack z = Inr ()"

section \<open>The stack loader\<close>

text \<open>\<^verbatim>\<open>globStrings.split("//")\<close>: leftmost, non-overlapping occurrences.\<close>

fun py_split :: "string \<Rightarrow> string list" where
  "py_split [] = [[]]"
| "py_split [a] = [[a]]"
| "py_split (a # b # rest) =
     (if a = CHR ''/'' \<and> b = CHR ''/'' then [] # py_split rest
      else (case py_split (b # rest) of
              [] \<Rightarrow> [[a]]
            | p # ps \<Rightarrow> (a # p) # ps))"

text \<open>\<^verbatim>\<open>"//".join(patterns)\<close>, the encoding of a list of patterns.\<close>

fun py_join :: "string list \<Rightarrow> string" where
  "py_join [] = []"
| "py_join [p] = p"
| "py_join (p # q # ps) = p @ ''//'' @ py_join (q # ps)"

fun has_delimiter :: "string \<Rightarrow> bool" where
  "has_delimiter (a # b # rest) =
     ((a = CHR ''/'' \<and> b = CHR ''/'') \<or> has_delimiter (b # rest))"
| "has_delimiter _ = False"

text \<open>
  An image file as vigra sees it: its shape (width, height, channels) and its pixels.
  A file system maps a name to an image, or to nothing when vigra cannot open it.
\<close>

record 'p image =
  getShape :: "nat \<times> nat \<times> nat"
  pixel :: "nat \<Rightarrow> nat \<Rightarrow> nat \<Rightarrow> 'p"

type_synonym 'p filesystem = "string \<Rightarrow> 'p image option"

record stack_loader =
  fileNameList :: "string list"
  info :: "(nat \<times> nat \<times> nat) option"
  meta_shape :: "nat list option"

text \<open>
  \<^verbatim>\<open>OpStackLoader.setupOutputs\<close> (lines 52-89); \<open>glob\<close> is \<^verbatim>\<open>glob.glob\<close> on the
  file system at hand. The loop of lines 57-58 is the fold.
\<close>

definition OpStackLoader_setupOutputs ::
    "(string \<Rightarrow> string list) \<Rightarrow> 'p filesystem \<Rightarrow> string \<Rightarrow> py_error + stack_loader" where
  "OpStackLoader_setupOutputs glob fs globStrings =
     (let names = fold (\<lambda>globString acc. acc @ sort (glob globString))
                    (sort (py_split globStrings)) []
      in
      if length names \<noteq> 0 then
        (case fs (names ! 0) of
           None \<Rightarrow> Inl (FileOpenError (names ! 0))
         | Some im \<Rightarrow>
             (case getShape im of
                (sx, sy, sc) \<Rightarrow>
                  Inr \<lparr>fileNameList = names, info = Some (sx, sy, sc),
                       meta_shape = Some [sx, sy, length names, sc]\<rparr>))
      else Inr \<lparr>fileNameList = names, info = None, meta_shape = None\<rparr>)"

text \<open>The file list as the specification words it, from the patterns themselves.\<close>

definition expand_patterns :: "(string \<Rightarrow> string list) \<Rightarrow> string list \<Rightarrow> string list" where
  "expand_patterns glob patterns = concat (map (\<lambda>p. sort (glob p)) (sort patterns))"

text \<open>
  \<^verbatim>\<open>xs[start:stop]\<close> for a slice with both bounds given and not negative, and
  \<^verbatim>\<open>readImage(fileName)[key[0], key[1], key[3]]\<close>, the requested part of one image.
\<close>

definition py_slice :: "'a list \<Rightarrow> nat \<times> nat \<Rightarrow> 'a list" where
  "py_slice xs k = take (snd k - fst k) (drop (fst k) xs)"

definition crop :: "'p image \<Rightarrow> nat \<times> nat \<Rightarrow> nat \<times> nat \<Rightarrow> nat \<times> nat \<Rightarrow> 'p list list list" where
  "crop im kx ky kc =
     (case getShape im of
        (sx, sy, sc) \<Rightarrow>
          map (\<lambda>x. map (\<lambda>y. map (\<lambda>c. pixel im x y c) [fst kc..<min (snd kc) sc])
                 [fst ky..<min (snd ky) sy])
            [fst kx..<min (snd kx) sx])"

definition shape_mismatch :: py_error where
  "shape_mismatch = RuntimeError ''not all files have the same shape''"

text \<open>
  The loop of \<^verbatim>\<open>OpStackLoader.execute\<close> (lines 100-107). The result block is the list
  of its planes along the stack axis: \<open>res ! i\<close> is \<^verbatim>\<open>result[...,i,:]\<close>. The block
  is returned with the error, since the caller owns it and sees what was written.
\<close>

fun read_files ::
    "'p filesystem \<Rightarrow> (nat \<times> nat \<times> nat) option \<Rightarrow> roi_slicing \<Rightarrow> string list \<Rightarrow> nat
      \<Rightarrow> 'p list list list list \<Rightarrow> 'p list list list list \<times> py_error option" where
  "read_files fs refShape key [] i res = (res, None)"
| "read_files fs refShape key (fileName # rest) i res =
     (case fs fileName of
        None \<Rightarrow> (res, Some (RuntimeError fileName))
      | Some im \<Rightarrow>
          if refShape \<noteq> Some (getShape im) then (res, Some shape_mismatch)
          else if length key \<le> 3 then (res, Some IndexError)
          else if i \<ge> length res then (res, Some IndexError)
          else read_files fs refShape key rest (i + 1)
                 (res[i := crop im (key ! 0) (key ! 1) (key ! 3)]))"

definition OpStackLoader_execute ::
    "'p filesystem \<Rightarrow> stack_loader \<Rightarrow> roi_slicing \<Rightarrow> 'p list list list list
      \<Rightarrow> 'p list list list list \<times> py_error option" where
  "OpStackLoader_execute fs self key res =
     (if length key \<le> 2 then (res, Some IndexError)
      else read_files fs (info self) key (py_slice (fileNameList self) (key ! 2)) 0 res)"

text \<open>
  A fixture directory: two files match \<^verbatim>\<open>a*.png\<close> and one matches \<^verbatim>\<open>b*.png\<close>
  (\<^verbatim>\<open>glob\<close> returns matches in no particular order); \<^verbatim>\<open>a2.png\<close> is wider than
  the other two.
\<close>

definition fixture_glob :: "string \<Rightarrow> string list" where
  "fixture_glob pattern =
     (if pattern = ''a*.png'' then [''a2.png'', ''a1.png'']
      else if pattern = ''b*.png'' then [''b1.png'']
      else [])"

definition fixture_fs :: "nat filesystem" where
  "fixture_fs name =
     (if name = ''a2.png'' then Some \<lparr>getShape = (3, 2, 1), pixel = (\<lambda>x y c. 7)\<rparr>
      else if name = ''a1.png'' \<or> name = ''b1.png''
        then Some \<lparr>getShape = (2, 2, 1), pixel = (\<lambda>x y c. x + y)\<rparr>
      else None)"

section \<open>Properties of the chunk shape\<close>

lemma icbrt_from_cube_le: "k * k * k \<le> q \<Longrightarrow> icbrt_from q k * icbrt_from q k * icbrt_from q k \<le> q"
proof (induction q k rule: icbrt_from.induct)
  case (1 q k)
  show ?case
  proof (cases "(k + 1) * (k + 1) * (k + 1) \<le> q")
    case True
    then show ?thesis using "1.IH" by (subst (1 2 3) icbrt_from.simps) simp
  next
    case False
    then show ?thesis using "1.prems" by (subst (1 2 3) icbrt_from.simps) simp
  qed
qed

lemma icbrt_cube_le: "icbrt q * icbrt q * icbrt q \<le> q"
  unfolding icbrt_def by (rule icbrt_from_cube_le) simp

text \<open>With the exact cube root the assertion of the code never fails.\<close>

lemma icbrt_assertion:
  "icbrt (300000 div (n * d)) * icbrt (300000 div (n * d)) * icbrt (300000 div (n * d)) * n * d
     \<le> 300000"
proof -
  let ?c = "icbrt (300000 div (n * d))"
  have "?c * ?c * ?c * (n * d) \<le> 300000 div (n * d) * (n * d)"
    by (rule mult_le_mono1) (rule icbrt_cube_le)
  also have "\<dots> \<le> 300000" by simp
  finally show ?thesis by (simp add: mult.assoc)
qed

lemma prod_subset_le:
  fixes g :: "'a \<Rightarrow> nat"
  assumes "finite B" "A \<subseteq> B" "\<And>b. b \<in> B \<Longrightarrow> 1 \<le> g b"
  shows "prod g A \<le> prod g B"
proof -
  have "prod g B = prod g (B - A) * prod g A"
    using assms(2,1) by (rule prod.subset_diff)
  moreover have "0 < prod g (B - A)"
    by (rule prod_pos) (use assms(3) in \<open>auto simp: Suc_le_eq\<close>)
  ultimately show ?thesis by simp
qed

lemma clampChunk_prod_le:
  "clampChunk dims shape tags = Inr chunk \<Longrightarrow> length shape = length tags \<Longrightarrow>
   prod_list chunk \<le> prod_list (map (\<lambda>k. the (dims k)) tags)"
proof (induction dims shape tags arbitrary: chunk rule: clampChunk.induct)
  case (3 dims s ss axisKey tags)
  then show ?case
    by (auto split: option.splits sum.splits intro!: mult_le_mono)
qed simp_all

lemma clampChunk_zero:
  "clampChunk dims shape tags = Inr chunk \<Longrightarrow> length shape = length tags \<Longrightarrow>
   k \<in> set tags \<Longrightarrow> dims k = Some 0 \<Longrightarrow> prod_list chunk = 0"
proof (induction dims shape tags arbitrary: chunk rule: clampChunk.induct)
  case (3 dims s ss axisKey tags)
  then show ?case
    by (auto split: option.splits sum.splits)
qed simp_all

lemma clampChunk_dom:
  "clampChunk dims shape tags = Inr chunk \<Longrightarrow> length shape = length tags \<Longrightarrow>
   set tags \<subseteq> dom dims"
proof (induction dims shape tags arbitrary: chunk rule: clampChunk.induct)
  case (3 dims s ss axisKey tags)
  then show ?case
    by (auto split: option.splits sum.splits)
qed simp_all

lemma dom_chunkDims: "dom (chunkDims cd n) = {''t'', ''x'', ''y'', ''z'', ''c''}"
  by (auto simp: chunkDims_def)

lemma prod_chunkDims:
  "prod (\<lambda>k. the (chunkDims cd n k)) {''t'', ''x'', ''y'', ''z'', ''c''} = cd * cd * cd * n"
  by (simp add: chunkDims_def)

lemma prod_chunkDims_tc:
  "prod (\<lambda>k. the (chunkDims cd n k)) {''t'', ''c''} = n"
  by (simp add: chunkDims_def)

lemma computeChunkShape_budget:
  assumes d: "distinct axistags"
    and len: "length dataShape = length axistags"
    and h: "numChannels * dtypeBytes \<le> 300000 \<or> (\<exists>k \<in> set axistags. is_spatial k)"
    and r: "computeChunkShape pow_third dataShape axistags numChannels dtypeBytes = Inr chunk"
  shows "prod_list chunk * dtypeBytes \<le> 300000"
proof -
  define cd where "cd = pow_third (300000 div (numChannels * dtypeBytes))"
  define g where "g = (\<lambda>k. the (chunkDims cd numChannels k))"
  from r have nz: "numChannels * dtypeBytes \<noteq> 0"
    and as: "cd * cd * cd * numChannels * dtypeBytes \<le> 300000"
    and cl: "clampChunk (chunkDims cd numChannels) dataShape axistags = Inr chunk"
    by (auto simp: computeChunkShape_def cd_def Let_def split: if_splits)
  have sub: "set axistags \<subseteq> {''t'', ''x'', ''y'', ''z'', ''c''}"
    using clampChunk_dom [OF cl len] by (simp add: dom_chunkDims)
  have le: "prod_list chunk \<le> prod g (set axistags)"
    using clampChunk_prod_le [OF cl len] d
    by (simp add: g_def prod.distinct_set_conv_list)
  show ?thesis
  proof (cases "cd = 0")
    case False
    have "prod g (set axistags) \<le> prod g {''t'', ''x'', ''y'', ''z'', ''c''}"
      by (rule prod_subset_le [OF _ sub]) (use False nz in \<open>auto simp: g_def chunkDims_def\<close>)
    then have "prod_list chunk \<le> cd * cd * cd * numChannels"
      using le by (simp only: g_def prod_chunkDims)
    then have "prod_list chunk * dtypeBytes \<le> cd * cd * cd * numChannels * dtypeBytes"
      by (rule mult_le_mono1)
    then show ?thesis using as by linarith
  next
    case True
    show ?thesis
    proof (cases "\<exists>k \<in> set axistags. is_spatial k")
      case True
      then obtain k where k: "k \<in> set axistags" "is_spatial k" by blast
      have "chunkDims cd numChannels k = Some 0"
        using k(2) \<open>cd = 0\<close> by (auto simp: is_spatial_def chunkDims_def)
      then have "prod_list chunk = 0"
        using clampChunk_zero [OF cl len k(1)] by simp
      then show ?thesis by simp
    next
      case False
      then have sub2: "set axistags \<subseteq> {''t'', ''c''}"
        using sub by (auto simp: is_spatial_def)
      have "prod g (set axistags) \<le> prod g {''t'', ''c''}"
        by (rule prod_subset_le [OF _ sub2]) (use nz in \<open>auto simp: g_def chunkDims_def\<close>)
      then have "prod_list chunk \<le> numChannels"
        using le by (simp only: g_def prod_chunkDims_tc)
      then have "prod_list chunk * dtypeBytes \<le> numChannels * dtypeBytes"
        by (rule mult_le_mono1)
      then show ?thesis using h False by linarith
    qed
  qed
qed

text \<open>
  Where the budget is met: the chunk shape of either writer, whenever it is computed,
  holds at most 300000 bytes if the axistags are key-unique and either a spatial axis
  is present or the channels of one element already fit
  (\<open>numChannels * dtypeBytes \<le> 300000\<close>).
\<close>

lemma chunk_budget:
  assumes "distinct axistags"
    and "length dataShape = length axistags"
    and "OpStackToH5Writer_numChannels dataShape axistags * dtypeBytes \<le> 300000
         \<or> (\<exists>k \<in> set axistags. is_spatial k)"
  shows "(\<forall>chunk. OpH5WriterBigDataset_chunkShape pow_third dataShape axistags dtypeBytes
            = Inr chunk \<longrightarrow> prod_list chunk * dtypeBytes \<le> 300000)
       \<and> (\<forall>chunk. OpStackToH5Writer_chunkShape pow_third dataShape axistags dtypeBytes
            = Inr chunk \<longrightarrow> prod_list chunk * dtypeBytes \<le> 300000)"
proof (intro conjI allI impI)
  fix chunk
  assume r: "OpH5WriterBigDataset_chunkShape pow_third dataShape axistags dtypeBytes = Inr chunk"
  then obtain n where n: "OpH5WriterBigDataset_numChannels dataShape axistags = Inr n"
    and c: "computeChunkShape pow_third dataShape axistags n dtypeBytes = Inr chunk"
    by (auto simp: OpH5WriterBigDataset_chunkShape_def split: sum.splits)
  from n have "n = OpStackToH5Writer_numChannels dataShape axistags"
    by (auto simp: OpH5WriterBigDataset_numChannels_def OpStackToH5Writer_numChannels_def
        Let_def split: if_splits)
  with assms(3) have "n * dtypeBytes \<le> 300000 \<or> (\<exists>k \<in> set axistags. is_spatial k)"
    by simp
  then show "prod_list chunk * dtypeBytes \<le> 300000"
    using computeChunkShape_budget [OF assms(1,2) _ c] by blast
next
  fix chunk
  assume "OpStackToH5Writer_chunkShape pow_third dataShape axistags dtypeBytes = Inr chunk"
  then show "prod_list chunk * dtypeBytes \<le> 300000"
    unfolding OpStackToH5Writer_chunkShape_def
    using computeChunkShape_budget [OF assms] by blast
qed

lemma chunk_budget_instance:
  "OpH5WriterBigDataset_chunkShape icbrt [10, 10, 10, 1000] [''x'', ''y'', ''z'', ''c''] 4
     = Inr [4, 4, 4, 1000]
   \<and> OpStackToH5Writer_chunkShape icbrt [10, 10, 10, 1000] [''x'', ''y'', ''z'', ''c''] 4
     = Inr [4, 4, 4, 1000]
   \<and> prod_list [4, 4, 4, 1000] * 4 \<le> (300000 :: nat)"
proof -
  have b: "OpH5WriterBigDataset_chunkShape icbrt [10, 10, 10, 1000] [''x'', ''y'', ''z'', ''c''] 4
     = Inr [4, 4, 4, 1000]"
    by (simp add: OpH5WriterBigDataset_chunkShape_def OpH5WriterBigDataset_numChannels_def
        computeChunkShape_def icbrt_def icbrt_from.simps chunkDims_def)
  have s: "OpStackToH5Writer_chunkShape icbrt [10, 10, 10, 1000] [''x'', ''y'', ''z'', ''c''] 4
     = Inr [4, 4, 4, 1000]"
    by (simp add: OpStackToH5Writer_chunkShape_def OpStackToH5Writer_numChannels_def
        computeChunkShape_def icbrt_def icbrt_from.simps chunkDims_def)
  have d: "distinct [''x'', ''y'', ''z'', ''c'']" by simp
  have l: "length [10, 10, 10, 1000 :: nat] = length [''x'', ''y'', ''z'', ''c'']" by simp
  have h: "OpStackToH5Writer_numChannels [10, 10, 10, 1000] [''x'', ''y'', ''z'', ''c''] * 4
             \<le> 300000
           \<or> (\<exists>k \<in> set [''x'', ''y'', ''z'', ''c'']. is_spatial k)"
    by (simp add: is_spatial_def)
  from chunk_budget [OF d l h, of icbrt] b s show ?thesis by blast
qed

text \<open>
  C3. Both writers aim at chunks of at most 300000 bytes and assert it on the
  \<^verbatim>\<open>chunkDims\<close> table, but once one element's channels exceed the budget
  \<open>cubeDim\<close> is 0 and the assertion tests a product that is 0: with the channel axis
  only and 300001 one-byte channels the chunk is (300001), over the budget, and with
  spatial axes the chunk has extents 0.
\<close>

theorem chunk_over_budget:
  "OpH5WriterBigDataset_chunkShape icbrt [300001] [''c''] 1 = Inr [300001]
   \<and> \<not> prod_list [300001] * 1 \<le> (300000 :: nat)
   \<and> OpH5WriterBigDataset_chunkShape icbrt [10, 10, 300001] [''x'', ''y'', ''c''] 1
     = Inr [0, 0, 300001]"
  by (simp add: OpH5WriterBigDataset_chunkShape_def OpH5WriterBigDataset_numChannels_def
      computeChunkShape_def icbrt_def icbrt_from.simps chunkDims_def)

text \<open>
  C9. Without a channel axis \<^verbatim>\<open>OpStackToH5Writer.execute\<close> takes one channel, but
  \<^verbatim>\<open>OpH5WriterBigDataset.setupOutputs\<close> indexes the shape out of range and raises.
\<close>

theorem numChannels_without_channel_axis:
  "OpStackToH5Writer_numChannels [10, 10, 10] [''x'', ''y'', ''z''] = 1
   \<and> OpH5WriterBigDataset_numChannels [10, 10, 10] [''x'', ''y'', ''z''] = Inl IndexError"
  by (simp add: OpStackToH5Writer_numChannels_def OpH5WriterBigDataset_numChannels_def)

section \<open>Properties of the request tiling\<close>

lemma collect_Inr_all2:
  "collect f xs = Inr ys \<Longrightarrow> list_all2 (\<lambda>x y. f x = Inr y) xs ys"
proof (induction xs arbitrary: ys)
  case Nil
  then show ?case by simp
next
  case (Cons x xs)
  then show ?case by (auto split: sum.splits)
qed

lemma collect_Inr_map:
  "\<forall>x \<in> set xs. f x = Inr (g x) \<Longrightarrow> collect f xs = Inr (map g xs)"
  by (induction xs) simp_all

lemma int64_id: "- (2 ^ 63) \<le> x \<Longrightarrow> x < 2 ^ 63 \<Longrightarrow> int64 x = x"
  by (simp add: int64_def)

lemma range_of_elem:
  "a \<in> set (range_of (n, s)) \<Longrightarrow> \<exists>k. a = int k * s \<and> k < nat ((n + s - 1) div s)"
proof -
  assume "a \<in> set (range_of (n, s))"
  then have "a \<in> (\<lambda>k. int k * s) ` {0..<nat ((n + s - 1) div s)}"
    by (simp add: range_of_def)
  then show ?thesis by (elim imageE) (simp, blast)
qed

lemma int_div_mult_le:
  fixes x s :: int
  assumes "0 < s"
  shows "x div s * s \<le> x" and "x < x div s * s + s"
proof -
  have "x mod s < s" "0 \<le> x mod s" using assms by simp_all
  moreover have "x div s * s + x mod s = x" by simp
  ultimately show "x div s * s \<le> x" and "x < x div s * s + s" by linarith+
qed

lemma range_of_1d_bounds:
  assumes "0 < s" "a \<in> set (range_of (n, s))"
  shows "0 \<le> a \<and> a < n"
proof -
  from range_of_elem [OF assms(2)] obtain k where
    k: "a = int k * s" "k < nat ((n + s - 1) div s)" by blast
  from k(2) have "int k + 1 \<le> (n + s - 1) div s" by simp
  then have "(int k + 1) * s \<le> (n + s - 1) div s * s"
    using assms(1) by (simp add: mult_right_mono)
  also have "\<dots> \<le> n + s - 1"
    by (rule int_div_mult_le(1) [OF assms(1)])
  finally have "int k * s < n" by (simp add: algebra_simps)
  moreover have "0 \<le> int k * s" using assms(1) by simp
  ultimately show ?thesis by (simp add: k(1))
qed

lemma range_of_1d_mem:
  assumes "0 < s" "0 \<le> x" "x < n"
  shows "x div s * s \<in> set (range_of (n, s))"
proof -
  have d: "0 \<le> x div s" using assms(1,2) by (simp add: pos_imp_zdiv_nonneg_iff)
  have "x div s * s \<le> x" by (rule int_div_mult_le(1) [OF assms(1)])
  then have "(x div s + 1) * s \<le> n + s - 1" using assms(3) by (simp add: algebra_simps)
  then have "((x div s + 1) * s) div s \<le> (n + s - 1) div s"
    by (rule zdiv_mono1) (rule assms(1))
  then have "x div s + 1 \<le> (n + s - 1) div s" using assms(1) by simp
  then have "nat (x div s) < nat ((n + s - 1) div s)" using d by simp
  then have m: "nat (x div s) \<in> {0..<nat ((n + s - 1) div s)}" by simp
  have e: "x div s * s = int (nat (x div s)) * s" using d by simp
  have "x div s * s \<in> (\<lambda>k. int k * s) ` {0..<nat ((n + s - 1) div s)}"
    using e m by (rule image_eqI)
  then show ?thesis by (simp add: range_of_def)
qed

lemma range_of_1d_in:
  fixes s x n :: int
  assumes "0 < s" "x < n"
  shows "x div s * s \<le> x \<and> x < min (x div s * s + s) n"
  using int_div_mult_le [OF assms(1), of x] assms(2) by simp

lemma range_of_1d_unique:
  assumes "0 < s" "a \<in> set (range_of (n, s))" "a \<le> x" "x < min (a + s) n"
  shows "a = x div s * s \<and> 0 \<le> x \<and> x < n"
proof -
  from range_of_elem [OF assms(2)] obtain k where k: "a = int k * s" by blast
  have "x = s * int k + (x - a)" by (simp add: k mult.commute)
  moreover have "0 \<le> x - a" "x - a < s" using assms(3,4) by simp_all
  ultimately have "x div s = int k" by (rule int_div_pos_eq)
  then have e: "a = x div s * s" by (simp add: k)
  have "0 \<le> a" using range_of_1d_bounds [OF assms(1,2)] by simp
  then have "0 \<le> x" using assms(3) by linarith
  moreover have "x < n" using assms(4) by simp
  ultimately show ?thesis using e by blast
qed


lemma tile_of_Cons [simp]:
  "tile_of (ax # axes) (a # idx) = (a, min (a + snd ax) (fst ax)) # tile_of axes idx"
  by (simp add: tile_of_def)

lemma set_tiles_of_Nil [simp]: "tiles_of [] = [[]]"
  by (simp add: tiles_of_def tile_of_def)

lemma tiles_of_Cons:
  "tiles_of (ax # axes)
     = concat (map (\<lambda>a. map ((#) (a, min (a + snd ax) (fst ax))) (tiles_of axes))
                (range_of ax))"
  by (simp add: tiles_of_def map_concat o_def)

lemma set_tiles_of_Cons:
  "t \<in> set (tiles_of (ax # axes)) \<longleftrightarrow>
     (\<exists>a \<in> set (range_of ax). \<exists>t' \<in> set (tiles_of axes).
        t = (a, min (a + snd ax) (fst ax)) # t')"
  unfolding tiles_of_Cons by auto

lemma canonical_in_tiles:
  "\<forall>ax \<in> set axes. 0 < snd ax \<Longrightarrow> list_all2 (\<lambda>x ax. 0 \<le> x \<and> x < fst ax) p axes \<Longrightarrow>
   canonical axes p \<in> set (tiles_of axes) \<and> in_slicing p (canonical axes p)"
proof (induction axes arbitrary: p)
  case Nil
  then show ?case by (simp add: canonical_def in_slicing_def)
next
  case (Cons ax axes)
  from Cons.prems(2) obtain x p' where p: "p = x # p'" and x: "0 \<le> x" "x < fst ax"
    and p': "list_all2 (\<lambda>x ax. 0 \<le> x \<and> x < fst ax) p' axes"
    by (auto simp: list_all2_Cons2)
  have s: "0 < snd ax" using Cons.prems(1) by simp
  from Cons.IH [OF _ p'] Cons.prems(1)
  have ih: "canonical axes p' \<in> set (tiles_of axes)" "in_slicing p' (canonical axes p')"
    by simp_all
  have c: "canonical (ax # axes) p
      = (x div snd ax * snd ax, min (x div snd ax * snd ax + snd ax) (fst ax)) # canonical axes p'"
    by (simp add: canonical_def p)
  have m: "x div snd ax * snd ax \<in> set (range_of ax)"
    using range_of_1d_mem [OF s x] by simp
  have i: "x div snd ax * snd ax \<le> x \<and> x < min (x div snd ax * snd ax + snd ax) (fst ax)"
    by (rule range_of_1d_in [OF s x(2)])
  show ?case
    unfolding c set_tiles_of_Cons using m ih i by (auto simp: in_slicing_def p)
qed

lemma tile_is_canonical:
  "\<forall>ax \<in> set axes. 0 < snd ax \<Longrightarrow> t \<in> set (tiles_of axes) \<Longrightarrow> in_slicing p t \<Longrightarrow>
   t = canonical axes p \<and> list_all2 (\<lambda>x ax. 0 \<le> x \<and> x < fst ax) p axes"
proof (induction axes arbitrary: p t)
  case Nil
  then show ?case by (simp add: canonical_def in_slicing_def)
next
  case (Cons ax axes)
  from Cons.prems(2) obtain a t' where a: "a \<in> set (range_of ax)"
    and t': "t' \<in> set (tiles_of axes)" and t: "t = (a, min (a + snd ax) (fst ax)) # t'"
    unfolding set_tiles_of_Cons by blast
  from Cons.prems(3) t obtain x p' where p: "p = x # p'"
    and x: "a \<le> x" "x < min (a + snd ax) (fst ax)" and p': "in_slicing p' t'"
    by (auto simp: in_slicing_def list_all2_Cons2)
  have s: "0 < snd ax" using Cons.prems(1) by simp
  have a': "a \<in> set (range_of (fst ax, snd ax))" using a by simp
  from range_of_1d_unique [OF s a' x]
  have u: "a = x div snd ax * snd ax" "0 \<le> x" "x < fst ax" by simp_all
  from Cons.IH [OF _ t' p'] Cons.prems(1)
  have ih: "t' = canonical axes p'" "list_all2 (\<lambda>x ax. 0 \<le> x \<and> x < fst ax) p' axes"
    by simp_all
  show ?case using u ih by (simp add: t p canonical_def)
qed

lemma distinct_range_of: "0 < snd ax \<Longrightarrow> distinct (range_of ax)"
  by (auto simp: range_of_def distinct_map inj_on_def)

lemma distinct_tiles_of:
  assumes "\<forall>ax \<in> set axes. 0 < snd ax"
  shows "distinct (tiles_of axes)"
proof -
  have d: "distinct (product_lists (map range_of axes))"
    by (rule distinct_product_lists) (use assms in \<open>auto simp: distinct_range_of\<close>)
  have "map fst (tile_of axes idx) = idx" if "length idx = length axes" for idx
    using that unfolding tile_of_def
    by (induction idx axes rule: list_induct2) simp_all
  then have "inj_on (tile_of axes) (set (product_lists (map range_of axes)))"
    by (intro inj_on_inverseI [where g = "map fst"])
       (auto dest: in_set_product_lists_length)
  with d show ?thesis by (simp add: tiles_of_def distinct_map)
qed


lemma list_all2_lhs_total:
  "list_all2 (\<lambda>x y. f x = Inr y) xs ys \<Longrightarrow> x \<in> set xs \<Longrightarrow> \<exists>y. f x = Inr y"
  by (induction xs ys rule: list_all2_induct) auto

lemma list_all2_rhs_total:
  "list_all2 (\<lambda>x y. f x = Inr y) xs ys \<Longrightarrow> y \<in> set ys \<Longrightarrow> \<exists>x. f x = Inr y"
  by (induction xs ys rule: list_all2_induct) auto

lemma np_binop_exact:
  assumes "length xs = length ys"
    and "\<forall>i < length xs. - (2 ^ 63) \<le> f (xs ! i) (ys ! i) \<and> f (xs ! i) (ys ! i) < 2 ^ 63"
  shows "np_binop f xs ys = Inr (map2 f xs ys)"
proof -
  have "map2 (\<lambda>x y. int64 (f x y)) xs ys = map2 f xs ys"
    by (rule nth_equalityI) (use assms in \<open>simp_all add: int64_id\<close>)
  then show ?thesis using assms(1) by (simp add: np_binop_def)
qed

lemma tile_of_zip:
  assumes "length idx = length shape" and "length shape = length shift"
  shows "zip idx (map2 min (map2 (+) idx shift) shape) = tile_of (zip shape shift) idx"
  using assms unfolding tile_of_def
  by (induction idx shape shift rule: list_induct3) simp_all

lemma requestSlicing_tile_of:
  assumes l: "length shift = length shape"
    and pos: "\<forall>s \<in> set shift. 0 < s \<and> s < 2 ^ 56"
    and bn: "\<forall>n \<in> set shape. 0 \<le> n \<and> n < 2 ^ 56"
    and m: "idx \<in> set (product_lists (map range_of (zip shape shift)))"
  shows "requestSlicing shape shift idx = Inr (tile_of (zip shape shift) idx)"
proof -
  from m have a: "list_all2 (\<lambda>a r. a \<in> set r) idx (map range_of (zip shape shift))"
    by (simp add: product_lists_set)
  then have li: "length idx = length shape" using l by (auto dest: list_all2_lengthD)
  have e: "0 \<le> idx ! i \<and> idx ! i < shape ! i \<and> 0 < shift ! i \<and> shift ! i < 2 ^ 56
           \<and> shape ! i < 2 ^ 56" if "i < length shape" for i
  proof -
    from that l have s: "0 < shift ! i \<and> shift ! i < 2 ^ 56" using pos by simp
    from that have n: "shape ! i < 2 ^ 56" using bn by simp
    from list_all2_nthD [OF a, of i] that li l
    have "idx ! i \<in> set (range_of (shape ! i, shift ! i))" by simp
    from range_of_1d_bounds [OF _ this] s n show ?thesis by simp
  qed
  have p: "np_binop (+) idx shift = Inr (map2 (+) idx shift)"
  proof (rule np_binop_exact)
    show "length idx = length shift" using li l by simp
    show "\<forall>i < length idx. - (2 ^ 63) \<le> idx ! i + shift ! i \<and> idx ! i + shift ! i < 2 ^ 63"
    proof (intro allI impI)
      fix i assume "i < length idx"
      then have "i < length shape" using li by simp
      from e [OF this] show "- (2 ^ 63) \<le> idx ! i + shift ! i \<and> idx ! i + shift ! i < 2 ^ 63"
        by simp
    qed
  qed
  have q: "np_binop min (map2 (+) idx shift) shape = Inr (map2 min (map2 (+) idx shift) shape)"
  proof (rule np_binop_exact)
    show "length (map2 (+) idx shift) = length shape" using li l by simp
    show "\<forall>i < length (map2 (+) idx shift).
            - (2 ^ 63) \<le> min (map2 (+) idx shift ! i) (shape ! i)
            \<and> min (map2 (+) idx shift ! i) (shape ! i) < 2 ^ 63"
    proof (intro allI impI)
      fix i assume "i < length (map2 (+) idx shift)"
      then have i: "i < length shape" "i < length idx" "i < length shift" using li l by simp_all
      from e [OF i(1)] i
      show "- (2 ^ 63) \<le> min (map2 (+) idx shift ! i) (shape ! i)
            \<and> min (map2 (+) idx shift ! i) (shape ! i) < 2 ^ 63"
        by (auto simp: min_def)
    qed
  qed
  show ?thesis
    using p q tile_of_zip [OF li l [symmetric]] by (simp add: requestSlicing_def)
qed

lemma py_range_range_of:
  "0 < snd ax \<Longrightarrow> (case ax of (stop, step) \<Rightarrow> py_range stop step) = Inr (range_of ax)"
  by (cases ax) (simp add: py_range_def range_of_def)

lemma tiles_from_shift:
  assumes l: "length shift = length shape"
    and pos: "\<forall>s \<in> set shift. 0 < s \<and> s < 2 ^ 56"
    and bn: "\<forall>n \<in> set shape. 0 \<le> n \<and> n < 2 ^ 56"
  shows "collect (\<lambda>(stop, step). py_range stop step) (zip shape shift)
           = Inr (map range_of (zip shape shift))"
    and "collect (requestSlicing shape shift) (product_lists (map range_of (zip shape shift)))
           = Inr (tiles_of (zip shape shift))"
proof -
  have "\<forall>ax \<in> set (zip shape shift). 0 < snd ax"
    using pos by (auto dest: set_zip_rightD)
  then show "collect (\<lambda>(stop, step). py_range stop step) (zip shape shift)
           = Inr (map range_of (zip shape shift))"
    by (intro collect_Inr_map) (auto simp: py_range_range_of)
  have "\<forall>idx \<in> set (product_lists (map range_of (zip shape shift))).
          requestSlicing shape shift idx = Inr (tile_of (zip shape shift) idx)"
    using requestSlicing_tile_of [OF l pos bn] by blast
  then show "collect (requestSlicing shape shift) (product_lists (map range_of (zip shape shift)))
           = Inr (tiles_of (zip shape shift))"
    unfolding tiles_of_def by (rule collect_Inr_map)
qed

lemma multipliers_range: "dict_get multipliers k = Inr m \<Longrightarrow> 0 < m \<and> m \<le> 100"
  by (auto simp: dict_get_def multipliers_def split: if_splits option.splits)

lemma shift_exact:
  assumes len: "length shape = length axistags" "length chunkShape = length axistags"
    and bn: "\<forall>n \<in> set shape. 0 \<le> n \<and> n < 2 ^ 56"
    and bc: "\<forall>c \<in> set chunkShape. 0 \<le> c \<and> c < 2 ^ 56"
    and m: "collect (dict_get multipliers) axistags = Inr multiplier"
  shows "np_binop (*) chunkShape multiplier = Inr (map2 (*) chunkShape multiplier)"
    and "np_binop min (map2 (*) chunkShape multiplier) shape
           = Inr (map2 min (map2 (*) chunkShape multiplier) shape)"
    and "\<forall>i < length shape. map2 min (map2 (*) chunkShape multiplier) shape ! i
           = min (chunkShape ! i * multiplier ! i) (shape ! i)
         \<and> 0 < multiplier ! i \<and> multiplier ! i \<le> 100"
proof -
  have lm: "length multiplier = length axistags"
    using collect_Inr_all2 [OF m] by (simp add: list_all2_lengthD)
  have mr: "0 < multiplier ! i \<and> multiplier ! i \<le> 100" if "i < length axistags" for i
  proof -
    from that lm have "multiplier ! i \<in> set multiplier" by simp
    from list_all2_rhs_total [OF collect_Inr_all2 [OF m] this]
    show ?thesis by (auto dest: multipliers_range)
  qed
  have pr: "0 \<le> chunkShape ! i * multiplier ! i \<and> chunkShape ! i * multiplier ! i < 2 ^ 63"
    if "i < length axistags" for i
  proof -
    from that len have c: "0 \<le> chunkShape ! i" "chunkShape ! i < 2 ^ 56" using bc by simp_all
    from mr [OF that] have r: "0 < multiplier ! i" "multiplier ! i \<le> 100" by simp_all
    have "chunkShape ! i * multiplier ! i \<le> chunkShape ! i * 100"
      using c(1) r(2) by (rule mult_left_mono [rotated])
    then show ?thesis using c r by simp
  qed
  show 1: "np_binop (*) chunkShape multiplier = Inr (map2 (*) chunkShape multiplier)"
  proof (rule np_binop_exact)
    show "length chunkShape = length multiplier" using len lm by simp
    show "\<forall>i < length chunkShape. - (2 ^ 63) \<le> chunkShape ! i * multiplier ! i
            \<and> chunkShape ! i * multiplier ! i < 2 ^ 63"
    proof (intro allI impI)
      fix i assume "i < length chunkShape"
      then have "i < length axistags" using len by simp
      from pr [OF this]
      show "- (2 ^ 63) \<le> chunkShape ! i * multiplier ! i
            \<and> chunkShape ! i * multiplier ! i < 2 ^ 63"
        by simp
    qed
  qed
  show 2: "np_binop min (map2 (*) chunkShape multiplier) shape
           = Inr (map2 min (map2 (*) chunkShape multiplier) shape)"
  proof (rule np_binop_exact)
    show "length (map2 (*) chunkShape multiplier) = length shape" using len lm by simp
    show "\<forall>i < length (map2 (*) chunkShape multiplier).
            - (2 ^ 63) \<le> min (map2 (*) chunkShape multiplier ! i) (shape ! i)
            \<and> min (map2 (*) chunkShape multiplier ! i) (shape ! i) < 2 ^ 63"
    proof (intro allI impI)
      fix i assume "i < length (map2 (*) chunkShape multiplier)"
      then have i: "i < length axistags" using len lm by simp
      then have "0 \<le> shape ! i" using bn len by simp
      with pr [OF i] i len lm
      show "- (2 ^ 63) \<le> min (map2 (*) chunkShape multiplier ! i) (shape ! i)
            \<and> min (map2 (*) chunkShape multiplier ! i) (shape ! i) < 2 ^ 63"
        by (auto simp: min_def)
    qed
  qed
  show "\<forall>i < length shape. map2 min (map2 (*) chunkShape multiplier) shape ! i
           = min (chunkShape ! i * multiplier ! i) (shape ! i)
         \<and> 0 < multiplier ! i \<and> multiplier ! i \<le> 100"
    using mr len lm by simp
qed


lemma computeRequestSlicings_tiles:
  assumes len: "length shape = length axistags" "length chunkShape = length axistags"
    and bn: "\<forall>n \<in> set shape. 0 \<le> n \<and> n < 2 ^ 56"
    and bc: "\<forall>c \<in> set chunkShape. 0 \<le> c \<and> c < 2 ^ 56"
    and r: "computeRequestSlicings shape axistags chunkShape = Inr tiles"
  shows "\<exists>shift. length shift = length shape \<and> (\<forall>s \<in> set shift. 0 < s)
           \<and> tiles = tiles_of (zip shape shift)"
proof -
  from r obtain multiplier shift0 shift rs where
    m: "collect (dict_get multipliers) axistags = Inr multiplier"
    and s0: "np_binop (*) chunkShape multiplier = Inr shift0"
    and s: "np_binop min shift0 shape = Inr shift"
    and rs: "collect (\<lambda>(stop, step). py_range stop step) (zip shape shift) = Inr rs"
    and t: "collect (requestSlicing shape shift) (product_lists rs) = Inr tiles"
    by (auto simp: computeRequestSlicings_def split: sum.splits)
  note x = shift_exact [OF len bn bc m]
  have lm: "length multiplier = length axistags"
    using collect_Inr_all2 [OF m] by (simp add: list_all2_lengthD)
  from s0 x(1) have e0: "shift0 = map2 (*) chunkShape multiplier" by simp
  from s x(2) have e: "shift = map2 min (map2 (*) chunkShape multiplier) shape"
    by (simp add: e0)
  have l: "length shift = length shape" using len lm by (simp add: e)
  have pos: "\<forall>s \<in> set shift. 0 < s \<and> s < 2 ^ 56"
  proof
    fix st assume "st \<in> set shift"
    then obtain i where i: "i < length shift" "st = shift ! i"
      by (auto simp: in_set_conv_nth)
    then have il: "i < length shape" "i < length chunkShape" using l len by simp_all
    from x(3) il(1) have v: "st = min (chunkShape ! i * multiplier ! i) (shape ! i)"
      and mp: "0 < multiplier ! i" by (simp_all add: i(2) e)
    have n: "0 \<le> shape ! i" "shape ! i < 2 ^ 56" using bn il(1) by simp_all
    have c: "0 \<le> chunkShape ! i" using bc il(2) by simp
    have "0 \<le> chunkShape ! i * multiplier ! i" using c mp by simp
    then have ge: "0 \<le> st" "st < 2 ^ 56" using n by (simp_all add: v)
    have "(shape ! i, st) \<in> set (zip shape shift)"
      using i il(1) by (auto simp: set_zip)
    from list_all2_lhs_total [OF collect_Inr_all2 [OF rs] this]
    have "st \<noteq> 0" by (auto simp: py_range_def split: if_splits)
    with ge show "0 < st \<and> st < 2 ^ 56" by simp
  qed
  from tiles_from_shift [OF l pos bn] rs t
  have "tiles = tiles_of (zip shape shift)" by simp
  with l pos show ?thesis by blast
qed

lemma computeRequestSlicings_total:
  assumes len: "length shape = length axistags" "length chunkShape = length axistags"
    and bn: "\<forall>n \<in> set shape. 0 \<le> n \<and> n < 2 ^ 56"
    and bc: "\<forall>c \<in> set chunkShape. 0 \<le> c \<and> c < 2 ^ 56"
    and ps: "\<forall>n \<in> set shape. 0 < n" and pc: "\<forall>c \<in> set chunkShape. 0 < c"
    and k: "set axistags \<subseteq> dom multipliers"
  shows "\<exists>tiles. computeRequestSlicings shape axistags chunkShape = Inr tiles"
proof -
  define multiplier where "multiplier = map (\<lambda>k. the (multipliers k)) axistags"
  define shift where "shift = map2 min (map2 (*) chunkShape multiplier) shape"
  have m: "collect (dict_get multipliers) axistags = Inr multiplier"
    unfolding multiplier_def
    by (rule collect_Inr_map) (use k in \<open>auto simp: dict_get_def\<close>)
  note x = shift_exact [OF len bn bc m]
  have l: "length shift = length shape"
    by (simp add: shift_def multiplier_def len)
  have pos: "\<forall>s \<in> set shift. 0 < s \<and> s < 2 ^ 56"
  proof
    fix st assume "st \<in> set shift"
    then obtain i where i: "i < length shift" "st = shift ! i"
      by (auto simp: in_set_conv_nth)
    then have il: "i < length shape" "i < length chunkShape" using l len by simp_all
    from x(3) il(1) have v: "st = min (chunkShape ! i * multiplier ! i) (shape ! i)"
      and mp: "0 < multiplier ! i" by (simp_all add: i(2) shift_def)
    have n: "0 < shape ! i" "shape ! i < 2 ^ 56" using bn ps il(1) by simp_all
    have c: "0 < chunkShape ! i" using pc il(2) by simp
    have "0 < chunkShape ! i * multiplier ! i" using c mp by simp
    then show "0 < st \<and> st < 2 ^ 56" using n by (simp add: v)
  qed
  show ?thesis
    using m x(1,2) tiles_from_shift [OF l pos bn]
    by (simp add: computeRequestSlicings_def shift_def)
qed

lemma in_extent_zip:
  "length shift = length shape \<Longrightarrow>
   in_extent p shape \<longleftrightarrow> list_all2 (\<lambda>x ax. 0 \<le> x \<and> x < fst ax) p (zip shape shift)"
proof -
  assume l: "length shift = length shape"
  have "list_all2 (\<lambda>x ax. 0 \<le> x \<and> x < fst ax) p (zip shape shift)
      = list_all2 (\<lambda>x n. 0 \<le> x \<and> x < n) p (map fst (zip shape shift))"
    by (simp add: list_all2_map2)
  then show ?thesis using l by (simp add: in_extent_def)
qed

text \<open>
  C1 (as amended). For a shape, axistags and chunk shape of the same length whose
  extents are not negative and below \<open>2 ^ 56\<close> (so that no product or sum of the
  64-bit arithmetic wraps): whenever \<^verbatim>\<open>computeRequestSlicings\<close> returns a list of
  slicings, the slicings are distinct, every point of the extent lies in exactly one
  slicing, every point of a slicing lies in the extent, and no point lies in two
  slicings of the list. A list is returned whenever all extents of the shape and of
  the chunk shape are positive and the axis keys are among t, x, y, z, c. The list is a
  function of the three arguments.
\<close>

theorem tiles_partition:
  assumes "length shape = length axistags" and "length chunkShape = length axistags"
    and "\<forall>n \<in> set shape. 0 \<le> n \<and> n < 2 ^ 56"
    and "\<forall>c \<in> set chunkShape. 0 \<le> c \<and> c < 2 ^ 56"
  shows "(\<forall>tiles. computeRequestSlicings shape axistags chunkShape = Inr tiles \<longrightarrow>
            distinct tiles
            \<and> (\<forall>p. in_extent p shape \<longrightarrow> (\<exists>!t. t \<in> set tiles \<and> in_slicing p t))
            \<and> (\<forall>t \<in> set tiles. \<forall>p. in_slicing p t \<longrightarrow> in_extent p shape)
            \<and> (\<forall>i j. i < j \<and> j < length tiles \<longrightarrow>
                  \<not> (\<exists>p. in_slicing p (tiles ! i) \<and> in_slicing p (tiles ! j))))
       \<and> ((\<forall>n \<in> set shape. 0 < n) \<and> (\<forall>c \<in> set chunkShape. 0 < c)
            \<and> set axistags \<subseteq> dom multipliers \<longrightarrow>
            (\<exists>tiles. computeRequestSlicings shape axistags chunkShape = Inr tiles))"
proof (intro conjI allI impI)
  assume "(\<forall>n \<in> set shape. 0 < n) \<and> (\<forall>c \<in> set chunkShape. 0 < c)
            \<and> set axistags \<subseteq> dom multipliers"
  then show "\<exists>tiles. computeRequestSlicings shape axistags chunkShape = Inr tiles"
    using computeRequestSlicings_total [OF assms] by blast
next
  fix tiles
  assume r: "computeRequestSlicings shape axistags chunkShape = Inr tiles"
  from computeRequestSlicings_tiles [OF assms r] obtain shift where
    l: "length shift = length shape" and pos: "\<forall>s \<in> set shift. 0 < s"
    and t: "tiles = tiles_of (zip shape shift)" by blast
  have ax: "\<forall>ax \<in> set (zip shape shift). 0 < snd ax"
    using pos by (auto dest: set_zip_rightD)
  show d: "distinct tiles" unfolding t by (rule distinct_tiles_of [OF ax])
  show "\<exists>!t. t \<in> set tiles \<and> in_slicing p t" if "in_extent p shape" for p
  proof (rule ex1I [where a = "canonical (zip shape shift) p"])
    from that have "list_all2 (\<lambda>x ax. 0 \<le> x \<and> x < fst ax) p (zip shape shift)"
      by (simp only: in_extent_zip [OF l])
    from canonical_in_tiles [OF ax this]
    show "canonical (zip shape shift) p \<in> set tiles
        \<and> in_slicing p (canonical (zip shape shift) p)"
      by (simp add: t)
  next
    fix u assume "u \<in> set tiles \<and> in_slicing p u"
    then show "u = canonical (zip shape shift) p"
      using tile_is_canonical [OF ax] by (simp add: t)
  qed
  show "\<forall>u \<in> set tiles. \<forall>p. in_slicing p u \<longrightarrow> in_extent p shape"
    using tile_is_canonical [OF ax] by (auto simp: t in_extent_zip [OF l])
  show "\<not> (\<exists>p. in_slicing p (tiles ! i) \<and> in_slicing p (tiles ! j))"
    if "i < j \<and> j < length tiles" for i j
  proof
    assume "\<exists>p. in_slicing p (tiles ! i) \<and> in_slicing p (tiles ! j)"
    then obtain p where p: "in_slicing p (tiles ! i)" "in_slicing p (tiles ! j)" by blast
    from that have m: "tiles ! i \<in> set tiles" "tiles ! j \<in> set tiles" by simp_all
    have "tiles ! i = canonical (zip shape shift) p"
      using tile_is_canonical [OF ax _ p(1)] m(1) by (simp add: t)
    moreover have "tiles ! j = canonical (zip shape shift) p"
      using tile_is_canonical [OF ax _ p(2)] m(2) by (simp add: t)
    ultimately have "tiles ! i = tiles ! j" by simp
    with d that show False by (simp add: nth_eq_iff_index_eq)
  qed
qed

theorem tiles_partition_witness:
  "length [2, 7 :: int] = length [''t'', ''x'']
   \<and> length [1, 1 :: int] = length [''t'', ''x'']
   \<and> computeRequestSlicings [2, 7] [''t'', ''x''] [1, 1]
     = Inr [[(0, 1), (0, 5)], [(0, 1), (5, 7)], [(1, 2), (0, 5)], [(1, 2), (5, 7)]]
   \<and> distinct ([[(0, 1), (0, 5)], [(0, 1), (5, 7)], [(1, 2), (0, 5)], [(1, 2), (5, 7)]]
        :: slicing list)
   \<and> in_extent [1, 6] [2, 7]
   \<and> in_slicing [1, 6] [(1, 2), (5, 7)]
   \<and> \<not> in_slicing [1, 6] [(1, 2), (0, 5)]"
proof -
  let ?tiles = "[[(0, 1), (0, 5)], [(0, 1), (5, 7)], [(1, 2), (0, 5)], [(1, 2), (5, 7)]]
        :: slicing list"
  have l1: "length [2, 7 :: int] = length [''t'', ''x'']" by simp
  have l2: "length [1, 1 :: int] = length [''t'', ''x'']" by simp
  have b1: "\<forall>n \<in> set [2, 7 :: int]. 0 \<le> n \<and> n < 2 ^ 56" by simp
  have b2: "\<forall>c \<in> set [1, 1 :: int]. 0 \<le> c \<and> c < 2 ^ 56" by simp
  have c: "computeRequestSlicings [2, 7] [''t'', ''x''] [1, 1] = Inr ?tiles"
    by code_simp
  have e: "in_extent [1, 6] [2, 7]" by (simp add: in_extent_def)
  have i: "in_slicing [1, 6] [(1, 2), (5, 7)]" by (simp add: in_slicing_def)
  from tiles_partition [OF l1 l2 b1 b2] c
  have d: "distinct ?tiles"
    and u: "\<forall>i j. i < j \<and> j < length ?tiles \<longrightarrow>
                  \<not> (\<exists>p. in_slicing p (?tiles ! i) \<and> in_slicing p (?tiles ! j))"
    by blast+
  have "(2 :: nat) < 3 \<and> 3 < length ?tiles" by simp
  with u have "\<not> (\<exists>p. in_slicing p (?tiles ! 2) \<and> in_slicing p (?tiles ! 3))" by blast
  moreover have "?tiles ! 2 = [(1, 2), (0, 5)]" "?tiles ! 3 = [(1, 2), (5, 7)]" by simp_all
  ultimately have "\<not> in_slicing [1, 6] [(1, 2), (0, 5)]" using i by metis
  with l1 l2 c d e i show ?thesis by blast
qed

text \<open>
  C1 (as stated) fails: for a channel axis of extent \<open>10 ^ 17\<close> with a chunk of the
  same extent, the product with the multiplier 100 wraps to a negative shift, the range
  is empty and no slicing is returned, although the extent has points.
\<close>

theorem tiles_partition_counterexample:
  "computeRequestSlicings [100000000000000000] [''c''] [100000000000000000] = Inr []
   \<and> in_extent [0] [100000000000000000]"
  by (simp add: computeRequestSlicings_def dict_get_def multipliers_def np_binop_def int64_def
      py_range_def in_extent_def)

section \<open>Properties of the throttled writer\<close>

lemma streaming_states_invariant:
  "I st \<Longrightarrow>
   \<forall>s s'. I s \<longrightarrow> activeRequests s \<noteq> [] \<longrightarrow> serve_request imSlot N s = Inr s' \<longrightarrow> I s' \<Longrightarrow>
   s \<in> set (streaming_states imSlot N st) \<Longrightarrow> I s"
proof (induction imSlot N st rule: streaming_states.induct)
  case (1 imSlot N st)
  show ?case
  proof (cases "activeRequests st = []")
    case True
    then show ?thesis using "1.prems"(1,3) by (subst (asm) streaming_states.simps) simp
  next
    case False
    show ?thesis
    proof (cases "serve_request imSlot N st")
      case (Inl e)
      then show ?thesis using False "1.prems"(1,3) by (subst (asm) streaming_states.simps) simp
    next
      case (Inr st')
      have i: "I st'" using "1.prems"(1,2) False Inr by blast
      from "1.prems"(3) have "s = st \<or> s \<in> set (streaming_states imSlot N st')"
        using False Inr by (subst (asm) streaming_states.simps) simp
      then show ?thesis
      proof
        assume "s = st"
        then show ?thesis using "1.prems"(1) by simp
      next
        assume "s \<in> set (streaming_states imSlot N st')"
        then show ?thesis using "1.IH" [OF False Inr i "1.prems"(2)] by blast
      qed
    qed
  qed
qed

lemma streaming_in_states:
  "streaming imSlot N st = Inr st' \<Longrightarrow>
   st' \<in> set (streaming_states imSlot N st) \<and> activeRequests st' = []"
proof (induction imSlot N st rule: streaming.induct)
  case (1 imSlot N st)
  show ?case
  proof (cases "activeRequests st = []")
    case True
    then show ?thesis using "1.prems"
      by (subst streaming_states.simps) (simp add: streaming.simps)
  next
    case False
    then obtain s where s: "serve_request imSlot N st = Inr s"
      and r: "streaming imSlot N s = Inr st'"
      using "1.prems" by (subst (asm) streaming.simps) (auto split: sum.splits)
    from "1.IH" [OF False s r] show ?thesis
      using False s by (subst streaming_states.simps) simp
  qed
qed

lemma activate_fields:
  "n \<le> length (slicings st) \<Longrightarrow>
   \<exists>st'. activate n st = Inr st'
     \<and> slicings st' = take (length (slicings st) - n) (slicings st)
     \<and> activeSlicings st' = activeSlicings st @ take n (rev (slicings st))
     \<and> activeRequests st' = activeRequests st @ take n (rev (slicings st))
     \<and> requested st' = requested st @ take n (rev (slicings st))
     \<and> counter st' = counter st \<and> progress st' = progress st \<and> dataset st' = dataset st"
proof (induction n arbitrary: st)
  case 0
  then show ?case by simp
next
  case (Suc n)
  then have ne: "slicings st \<noteq> []" by auto
  define st1 where "st1 = st\<lparr>slicings := butlast (slicings st),
                activeSlicings := activeSlicings st @ [last (slicings st)],
                activeRequests := activeRequests st @ [last (slicings st)],
                requested := requested st @ [last (slicings st)]\<rparr>"
  have a: "activate_next st = Inr st1"
    using ne by (simp add: activate_next_def st1_def Let_def)
  have "n \<le> length (slicings st1)" using Suc.prems by (simp add: st1_def)
  from Suc.IH [OF this] obtain st' where st': "activate n st1 = Inr st'"
     "slicings st' = take (length (slicings st1) - n) (slicings st1)"
     "activeSlicings st' = activeSlicings st1 @ take n (rev (slicings st1))"
     "activeRequests st' = activeRequests st1 @ take n (rev (slicings st1))"
     "requested st' = requested st1 @ take n (rev (slicings st1))"
     "counter st' = counter st1" "progress st' = progress st1" "dataset st' = dataset st1"
    by blast
  obtain ys y where ys: "slicings st = ys @ [y]"
    using ne by (cases "slicings st" rule: rev_cases) auto
  show ?case
    using a st' by (simp add: st1_def ys)
qed


lemma throttled_start_total:
  "\<exists>st. throttled_start sl = Inr st
     \<and> slicings st = take (length sl - min 10 (length sl)) sl
     \<and> activeSlicings st = take (min 10 (length sl)) (rev sl)
     \<and> activeRequests st = take (min 10 (length sl)) (rev sl)
     \<and> requested st = take (min 10 (length sl)) (rev sl)
     \<and> counter st = 0 \<and> progress st = [0] \<and> dataset st = []"
proof -
  have "min 10 (length sl) \<le> length (slicings (initial_state sl :: 'a writer_state))"
    by (simp add: initial_state_def)
  from activate_fields [OF this] obtain st' :: "'a writer_state"
    where "activate (min 10 (length sl)) (initial_state sl) = Inr st'"
      "slicings st' = take (length sl - min 10 (length sl)) sl"
      "activeSlicings st' = take (min 10 (length sl)) (rev sl)"
      "activeRequests st' = take (min 10 (length sl)) (rev sl)"
      "requested st' = take (min 10 (length sl)) (rev sl)"
      "progress st' = [0]" "dataset st' = []"
    by (auto simp: initial_state_def)
  then show ?thesis by (simp add: throttled_start_def)
qed

lemma throttled_invI:
  "activeSlicings st = activeRequests st \<Longrightarrow>
   requested st = map fst (dataset st) @ activeRequests st \<Longrightarrow>
   requested st @ rev (slicings st) = rev sl \<Longrightarrow>
   (slicings st \<noteq> [] \<longrightarrow> activeRequests st \<noteq> []) \<Longrightarrow>
   length (activeRequests st) \<le> min 10 (length sl) \<Longrightarrow>
   counter st = length (dataset st) \<Longrightarrow>
   progress st = 0 # map (\<lambda>k. 100 * k div length sl) [0..<counter st] \<Longrightarrow>
   throttled_inv sl st"
  unfolding throttled_inv_def by blast

lemma throttled_invD:
  assumes "throttled_inv sl st"
  shows "activeSlicings st = activeRequests st"
    and "requested st = map fst (dataset st) @ activeRequests st"
    and "requested st @ rev (slicings st) = rev sl"
    and "slicings st \<noteq> [] \<longrightarrow> activeRequests st \<noteq> []"
    and "length (activeRequests st) \<le> min 10 (length sl)"
    and "counter st = length (dataset st)"
    and "progress st = 0 # map (\<lambda>k. 100 * k div length sl) [0..<counter st]"
  using assms unfolding throttled_inv_def by blast+

lemma throttled_inv_start:
  assumes "throttled_start sl = Inr (st :: 'a writer_state)"
  shows "throttled_inv sl st"
proof -
  obtain st' :: "'a writer_state" where "throttled_start sl = Inr st'"
     "slicings st' = take (length sl - min 10 (length sl)) sl"
     "activeSlicings st' = take (min 10 (length sl)) (rev sl)"
     "activeRequests st' = take (min 10 (length sl)) (rev sl)"
     "requested st' = take (min 10 (length sl)) (rev sl)"
     "counter st' = 0" "progress st' = [0]" "dataset st' = []"
    using throttled_start_total [of sl] by blast
  with assms
  have f: "slicings st = take (length sl - min 10 (length sl)) sl"
     "activeSlicings st = take (min 10 (length sl)) (rev sl)"
     "activeRequests st = take (min 10 (length sl)) (rev sl)"
     "requested st = take (min 10 (length sl)) (rev sl)"
     "counter st = 0" "progress st = [0]" "dataset st = []"
    by simp_all
  have "rev (take (length sl - min 10 (length sl)) sl) = drop (min 10 (length sl)) (rev sl)"
    by (simp add: rev_take)
  then have a: "requested st @ rev (slicings st) = rev sl"
    by (simp add: f)
  show ?thesis
  proof (rule throttled_invI)
    show "requested st @ rev (slicings st) = rev sl" by (rule a)
    show "slicings st \<noteq> [] \<longrightarrow> activeRequests st \<noteq> []" by (auto simp: f)
  qed (simp_all add: f)
qed

lemma throttled_inv_step:
  assumes i: "throttled_inv sl s" and r: "serve_request imSlot (length sl) s = Inr s'"
  shows "throttled_inv sl s'"
proof -
  note d = throttled_invD [OF i]
  from r obtain req reqs where q: "activeRequests s = req # reqs"
    by (auto simp: serve_request_def split: list.splits)
  from d(1) q have a: "activeSlicings s = req # reqs" by simp
  from r q a obtain block where b: "imSlot req = Inr block"
    by (auto simp: serve_request_def split: sum.splits)
  from r q a b have n: "length sl \<noteq> 0"
    by (auto simp: serve_request_def Let_def split: sum.splits if_splits)
  define w where "w = (req, if c_contiguous block then write_direct else setitem, payload block)"
  have fw: "fst w = req" by (simp add: w_def)
  show ?thesis
  proof (cases "slicings s = []")
    case True
    with r q a b n have s': "s' = s\<lparr>activeRequests := reqs, activeSlicings := reqs,
        dataset := dataset s @ [w],
        progress := progress s @ [100 * counter s div length sl],
        counter := counter s + 1\<rparr>"
      by (auto simp: serve_request_def Let_def w_def)
    show ?thesis
    proof (rule throttled_invI)
      show "requested s' = map fst (dataset s') @ activeRequests s'"
        using d(2) q by (simp add: s' fw)
      show "requested s' @ rev (slicings s') = rev sl"
        using d(3) by (simp add: s')
      show "slicings s' \<noteq> [] \<longrightarrow> activeRequests s' \<noteq> []"
        using True by (simp add: s')
      show "length (activeRequests s') \<le> min 10 (length sl)"
        using d(5) q by (simp add: s')
      show "progress s' = 0 # map (\<lambda>k. 100 * k div length sl) [0..<counter s']"
        using d(7) by (simp add: s')
    qed (simp_all add: s' d(6))
  next
    case False
    then obtain ys y where ys: "slicings s = ys @ [y]"
      by (cases "slicings s" rule: rev_cases) auto
    with r q a b n have s': "s' = s\<lparr>activeRequests := reqs @ [y], activeSlicings := reqs @ [y],
        dataset := dataset s @ [w],
        slicings := ys, requested := requested s @ [y],
        progress := progress s @ [100 * counter s div length sl],
        counter := counter s + 1\<rparr>"
      by (auto simp: serve_request_def activate_next_def Let_def w_def)
    show ?thesis
    proof (rule throttled_invI)
      show "requested s' = map fst (dataset s') @ activeRequests s'"
        using d(2) q by (simp add: s' fw)
      show "requested s' @ rev (slicings s') = rev sl"
        using d(3) ys by (simp add: s')
      show "slicings s' \<noteq> [] \<longrightarrow> activeRequests s' \<noteq> []"
        by (simp add: s')
      show "length (activeRequests s') \<le> min 10 (length sl)"
        using d(5) q by (simp add: s')
      show "progress s' = 0 # map (\<lambda>k. 100 * k div length sl) [0..<counter s']"
        using d(7) by (simp add: s')
    qed (simp_all add: s' d(6))
  qed
qed

lemma throttled_inv_states:
  assumes "throttled_start sl = Inr st0"
    and "s \<in> set (streaming_states imSlot (length sl) st0)"
  shows "throttled_inv sl s"
  using throttled_inv_start [OF assms(1)] _ assms(2)
  by (rule streaming_states_invariant) (blast intro: throttled_inv_step)

lemma execute_final:
  assumes c: "computeRequestSlicings shape axistags chunkShape = Inr sl"
    and e: "OpH5WriterBigDataset_execute imSlot shape axistags chunkShape = Inr st"
  shows "requested st = rev sl" "map fst (dataset st) = rev sl"
    "progress st = 0 # map (\<lambda>k. 100 * k div length sl) [0..<length sl] @ [100]"
proof -
  from c e obtain st0 st1 where s0: "throttled_start sl = Inr st0"
    and s1: "streaming imSlot (length sl) st0 = Inr st1"
    and st: "st = st1\<lparr>attrs_axistags := Some axistags, succeeded := True,
                   progress := progress st1 @ [100]\<rparr>"
    by (auto simp: OpH5WriterBigDataset_execute_def split: sum.splits)
  from streaming_in_states [OF s1] have m: "st1 \<in> set (streaming_states imSlot (length sl) st0)"
    and a: "activeRequests st1 = []" by simp_all
  from throttled_inv_states [OF s0 m] have i: "throttled_inv sl st1" .
  note d = throttled_invD [OF i]
  from d(4) a have p: "slicings st1 = []" by blast
  from d(3) p have r1: "requested st1 = rev sl" by simp
  from d(2) a r1 have r2: "map fst (dataset st1) = rev sl" by simp
  note r = r1 r2
  then show "requested st = rev sl" "map fst (dataset st) = rev sl" by (simp_all add: st)
  from r(2) have "length (dataset st1) = length sl"
    by (metis length_map length_rev)
  with d(6,7) show "progress st = 0 # map (\<lambda>k. 100 * k div length sl) [0..<length sl] @ [100]"
    by (simp add: st)
qed

lemma copy_images_progress:
  "copy_images stack n zs st = Inr st' \<Longrightarrow>
   stack_progress st' = stack_progress st @ map (\<lambda>z. z * 100 div n) zs"
proof (induction zs arbitrary: st)
  case Nil
  then show ?case by simp
next
  case (Cons z zs)
  then show ?case by (auto split: sum.splits if_splits)
qed

lemma stack_execute_progress:
  assumes "OpStackToH5Writer_execute pow_third stack dataShape stackTags dtypeBytes = Inr st"
  shows "\<exists>n. stack_progress st = 0 # map (\<lambda>z. z * 100 div n) [0..<n] @ [100]"
proof -
  from assms obtain n st1 where
    c: "copy_images stack n [0..<n] \<lparr>stack_progress = [0], data = [], stack_succeeded = False\<rparr> = Inr st1"
    and s: "st = st1\<lparr>stack_succeeded := True, stack_progress := stack_progress st1 @ [100]\<rparr>"
    by (auto simp: OpStackToH5Writer_execute_def Let_def split: if_splits sum.splits)
  from copy_images_progress [OF c] show ?thesis by (auto simp: s)
qed

lemma percent_list_sorted:
  fixes f :: "nat \<Rightarrow> nat"
  assumes "\<And>j k. j \<le> k \<Longrightarrow> f j \<le> f k" and "\<And>k. k < n \<Longrightarrow> f k \<le> 100"
  shows "sorted (0 # map f [0..<n] @ [100]) \<and> (\<forall>v \<in> set (0 # map f [0..<n] @ [100]). v \<le> 100)"
proof -
  have "sorted (map f [0..<n])"
    unfolding sorted_map
    by (rule sorted_wrt_mono_rel [where P = "(\<le>)"]) (auto intro: assms(1))
  then show ?thesis using assms(2) by (auto simp: sorted_append)
qed

lemma percent_mono: "j \<le> k \<Longrightarrow> 100 * j div n \<le> 100 * k div (n :: nat)"
  by (simp add: div_le_mono)

lemma percent_le: "k < n \<Longrightarrow> 100 * k div n \<le> (100 :: nat)"
proof -
  assume "k < n"
  then have "100 * k \<le> 100 * n" by simp
  then have "100 * k div n \<le> 100 * n div n" by (rule div_le_mono)
  also have "\<dots> = 100" using \<open>k < n\<close> by simp
  finally show ?thesis .
qed

text \<open>
  C6. A run of either writer that completes without error emits 0 first and 100 last.
  The input slot and the stack are arbitrary: each writer waits for its requests in a
  fixed order, so the order in which fetches complete does not enter.
\<close>

theorem progress_first_last:
  "(\<forall>st. OpH5WriterBigDataset_execute imSlot shape axistags chunkShape = Inr st
       \<longrightarrow> hd (progress st) = 0 \<and> last (progress st) = 100)
   \<and> (\<forall>st. OpStackToH5Writer_execute pow_third stack dataShape stackTags dtypeBytes = Inr st
       \<longrightarrow> hd (stack_progress st) = 0 \<and> last (stack_progress st) = 100)"
proof (intro conjI allI impI)
  fix st
  assume e: "OpH5WriterBigDataset_execute imSlot shape axistags chunkShape = Inr st"
  then obtain sl where c: "computeRequestSlicings shape axistags chunkShape = Inr sl"
    by (auto simp: OpH5WriterBigDataset_execute_def split: sum.splits)
  from execute_final(3) [OF c e]
  show "hd (progress st) = 0" "last (progress st) = 100" by simp_all
next
  fix st
  assume "OpStackToH5Writer_execute pow_third stack dataShape stackTags dtypeBytes = Inr st"
  from stack_execute_progress [OF this]
  show "hd (stack_progress st) = 0" "last (stack_progress st) = 100" by auto
qed

theorem progress_first_last_witness:
  "OpH5WriterBigDataset_execute contiguous_slot [2] [''t''] [1]
     = Inr \<lparr>slicings = [], activeSlicings = [], activeRequests = [], counter = 2,
            progress = [0, 0, 50, 100], requested = [[(1, 2)], [(0, 1)]],
            dataset = [([(1, 2)], write_direct, ()), ([(0, 1)], write_direct, ())],
            attrs_axistags = Some [''t''], succeeded = True\<rparr>
   \<and> hd [0, 0, 50, 100 :: nat] = 0 \<and> last [0, 0, 50, 100 :: nat] = 100
   \<and> OpStackToH5Writer_execute icbrt blank_stack [4, 4, 2, 1000] [''x'', ''y'', ''z'', ''c''] 4
     = Inr \<lparr>stack_progress = [0, 0, 50, 100], data = [(0, ()), (1, ())],
            stack_succeeded = True\<rparr>"
proof -
  have a: "OpH5WriterBigDataset_execute contiguous_slot [2] [''t''] [1]
     = Inr \<lparr>slicings = [], activeSlicings = [], activeRequests = [], counter = 2,
            progress = [0, 0, 50, 100], requested = [[(1, 2)], [(0, 1)]],
            dataset = [([(1, 2)], write_direct, ()), ([(0, 1)], write_direct, ())],
            attrs_axistags = Some [''t''], succeeded = True\<rparr>"
    by code_simp
  have b: "OpStackToH5Writer_execute icbrt blank_stack [4, 4, 2, 1000] [''x'', ''y'', ''z'', ''c''] 4
     = Inr \<lparr>stack_progress = [0, 0, 50, 100], data = [(0, ()), (1, ())],
            stack_succeeded = True\<rparr>"
    by (simp add: OpStackToH5Writer_execute_def OpStackToH5Writer_chunkShape_def
        OpStackToH5Writer_numChannels_def computeChunkShape_def icbrt_def icbrt_from.simps
        chunkDims_def blank_stack_def upt_rec)
  from progress_first_last [of contiguous_slot "[2]" "[''t'']" "[1]" icbrt blank_stack
      "[4, 4, 2, 1000]" "[''x'', ''y'', ''z'', ''c'']" 4] a b
  show ?thesis by simp
qed

text \<open>
  C10. In a run of either writer that completes without error, the emitted progress
  values never decrease, and each is a natural number of at most 100.
\<close>

theorem progress_monotone:
  "(\<forall>st. OpH5WriterBigDataset_execute imSlot shape axistags chunkShape = Inr st
       \<longrightarrow> sorted (progress st) \<and> (\<forall>v \<in> set (progress st). v \<le> 100))
   \<and> (\<forall>st. OpStackToH5Writer_execute pow_third stack dataShape stackTags dtypeBytes = Inr st
       \<longrightarrow> sorted (stack_progress st) \<and> (\<forall>v \<in> set (stack_progress st). v \<le> 100))"
proof (intro conjI allI impI)
  fix st
  assume e: "OpH5WriterBigDataset_execute imSlot shape axistags chunkShape = Inr st"
  then obtain sl where c: "computeRequestSlicings shape axistags chunkShape = Inr sl"
    by (auto simp: OpH5WriterBigDataset_execute_def split: sum.splits)
  have "sorted (0 # map (\<lambda>k. 100 * k div length sl) [0..<length sl] @ [100])
      \<and> (\<forall>v \<in> set (0 # map (\<lambda>k. 100 * k div length sl) [0..<length sl] @ [100]). v \<le> 100)"
    by (rule percent_list_sorted) (simp_all add: percent_mono percent_le)
  then show "sorted (progress st)" "\<forall>v \<in> set (progress st). v \<le> 100"
    unfolding execute_final(3) [OF c e] by blast+
next
  fix st
  assume "OpStackToH5Writer_execute pow_third stack dataShape stackTags dtypeBytes = Inr st"
  from stack_execute_progress [OF this] obtain n where
    p: "stack_progress st = 0 # map (\<lambda>z. z * 100 div n) [0..<n] @ [100]" by blast
  have "sorted (0 # map (\<lambda>z. z * 100 div n) [0..<n] @ [100])
      \<and> (\<forall>v \<in> set (0 # map (\<lambda>z. z * 100 div n) [0..<n] @ [100]). v \<le> 100)"
    by (rule percent_list_sorted)
      (use percent_mono percent_le in \<open>simp_all add: mult.commute\<close>)
  then show "sorted (stack_progress st)" "\<forall>v \<in> set (stack_progress st). v \<le> 100"
    unfolding p by blast+
qed


theorem progress_monotone_witness:
  "OpH5WriterBigDataset_execute contiguous_slot [2] [''t''] [1]
     = Inr \<lparr>slicings = [], activeSlicings = [], activeRequests = [], counter = 2,
            progress = [0, 0, 50, 100], requested = [[(1, 2)], [(0, 1)]],
            dataset = [([(1, 2)], write_direct, ()), ([(0, 1)], write_direct, ())],
            attrs_axistags = Some [''t''], succeeded = True\<rparr>
   \<and> sorted [0, 0, 50, 100 :: nat] \<and> 50 \<in> set [0, 0, 50, 100 :: nat] \<and> (50 :: nat) \<le> 100
   \<and> OpStackToH5Writer_execute icbrt blank_stack [4, 4, 2, 1000] [''x'', ''y'', ''z'', ''c''] 4
     = Inr \<lparr>stack_progress = [0, 0, 50, 100], data = [(0, ()), (1, ())],
            stack_succeeded = True\<rparr>"
proof -
  have a: "OpH5WriterBigDataset_execute contiguous_slot [2] [''t''] [1]
     = Inr \<lparr>slicings = [], activeSlicings = [], activeRequests = [], counter = 2,
            progress = [0, 0, 50, 100], requested = [[(1, 2)], [(0, 1)]],
            dataset = [([(1, 2)], write_direct, ()), ([(0, 1)], write_direct, ())],
            attrs_axistags = Some [''t''], succeeded = True\<rparr>"
    by code_simp
  have b: "OpStackToH5Writer_execute icbrt blank_stack [4, 4, 2, 1000] [''x'', ''y'', ''z'', ''c''] 4
     = Inr \<lparr>stack_progress = [0, 0, 50, 100], data = [(0, ()), (1, ())],
            stack_succeeded = True\<rparr>"
    by (simp add: OpStackToH5Writer_execute_def OpStackToH5Writer_chunkShape_def
        OpStackToH5Writer_numChannels_def computeChunkShape_def icbrt_def icbrt_from.simps
        chunkDims_def blank_stack_def upt_rec)
  from progress_monotone [of contiguous_slot "[2]" "[''t'']" "[1]" icbrt blank_stack
      "[4, 4, 2, 1000]" "[''x'', ''y'', ''z'', ''c'']" 4] a b
  show ?thesis by simp
qed

text \<open>
  C2 (as amended). Requests are created in the reverse of the order in which
  \<^verbatim>\<open>computeRequestSlicings\<close> generated the slicings: the first \<open>min 10 N\<close> requests are
  the last slicings of the list, last one first, and in a run that completes all
  requests were created, and all slicings written, in exactly the reversed order.
\<close>

theorem submission_order:
  assumes "computeRequestSlicings shape axistags chunkShape = Inr sl"
  shows "(\<exists>st0. throttled_start sl = Inr (st0 :: 'a writer_state)
            \<and> activeRequests st0 = take (min 10 (length sl)) (rev sl)
            \<and> requested st0 = take (min 10 (length sl)) (rev sl))
       \<and> (\<forall>st. OpH5WriterBigDataset_execute (imSlot :: 'a image_slot) shape axistags chunkShape
                 = Inr st
            \<longrightarrow> requested st = rev sl \<and> map fst (dataset st) = rev sl)"
proof (intro conjI allI impI)
  show "\<exists>st0. throttled_start sl = Inr (st0 :: 'a writer_state)
            \<and> activeRequests st0 = take (min 10 (length sl)) (rev sl)
            \<and> requested st0 = take (min 10 (length sl)) (rev sl)"
    using throttled_start_total [of sl] by blast
next
  fix st
  assume e: "OpH5WriterBigDataset_execute imSlot shape axistags chunkShape = Inr st"
  show "requested st = rev sl" by (rule execute_final(1) [OF assms e])
  show "map fst (dataset st) = rev sl" by (rule execute_final(2) [OF assms e])
qed

theorem submission_order_witness:
  "computeRequestSlicings [2] [''t''] [1] = Inr [[(0, 1)], [(1, 2)]]
   \<and> OpH5WriterBigDataset_execute contiguous_slot [2] [''t''] [1]
     = Inr \<lparr>slicings = [], activeSlicings = [], activeRequests = [], counter = 2,
            progress = [0, 0, 50, 100], requested = [[(1, 2)], [(0, 1)]],
            dataset = [([(1, 2)], write_direct, ()), ([(0, 1)], write_direct, ())],
            attrs_axistags = Some [''t''], succeeded = True\<rparr>
   \<and> [[(1, 2)], [(0, 1)]] = rev ([[(0, 1)], [(1, 2)]] :: slicing list)"
proof -
  have c: "computeRequestSlicings [2] [''t''] [1] = Inr [[(0, 1)], [(1, 2)]]"
    by code_simp
  have a: "OpH5WriterBigDataset_execute contiguous_slot [2] [''t''] [1]
     = Inr \<lparr>slicings = [], activeSlicings = [], activeRequests = [], counter = 2,
            progress = [0, 0, 50, 100], requested = [[(1, 2)], [(0, 1)]],
            dataset = [([(1, 2)], write_direct, ()), ([(0, 1)], write_direct, ())],
            attrs_axistags = Some [''t''], succeeded = True\<rparr>"
    by code_simp
  from submission_order [OF c, where imSlot = contiguous_slot] a c show ?thesis by simp
qed

text \<open>
  C2 (as stated) fails: with two slicings, the second one generated is requested and
  written first.
\<close>

theorem submission_order_counterexample:
  "computeRequestSlicings [2] [''t''] [1] = Inr [[(0, 1)], [(1, 2)]]
   \<and> map_sum id requested (OpH5WriterBigDataset_execute contiguous_slot [2] [''t''] [1])
     = Inr [[(1, 2)], [(0, 1)]]
   \<and> map_sum id (map fst \<circ> dataset) (OpH5WriterBigDataset_execute contiguous_slot [2] [''t''] [1])
     = Inr [[(1, 2)], [(0, 1)]]
   \<and> [[(1, 2)], [(0, 1)]] \<noteq> ([[(0, 1)], [(1, 2)]] :: slicing list)"
  by code_simp

text \<open>
  C4. The loop is entered with exactly \<open>min 10 N\<close> requests outstanding; each time its
  condition is tested at most \<open>min 10 N\<close> are, and one pass through its body completes
  exactly one request and creates at most one.
\<close>

theorem outstanding_requests_bounded:
  "\<exists>st0. throttled_start sl = Inr st0
     \<and> length (activeRequests st0) = min 10 (length sl)
     \<and> (\<forall>s \<in> set (streaming_states imSlot (length sl) st0).
          length (activeRequests s) \<le> min 10 (length sl)
          \<and> (\<forall>s'. serve_request imSlot (length sl) s = Inr s'
                \<longrightarrow> length (dataset s') = length (dataset s) + 1
                  \<and> length (requested s') \<le> length (requested s) + 1
                  \<and> length (activeRequests s') \<le> length (activeRequests s)))"
proof -
  obtain st0 :: "'a writer_state" where s: "throttled_start sl = Inr st0"
    and a: "activeRequests st0 = take (min 10 (length sl)) (rev sl)"
    using throttled_start_total [of sl] by blast
  have "length (activeRequests s) \<le> min 10 (length sl)"
    if "s \<in> set (streaming_states imSlot (length sl) st0)" for s
    using throttled_invD(5) [OF throttled_inv_states [OF s that]] .
  moreover have "length (dataset s') = length (dataset s) + 1
      \<and> length (requested s') \<le> length (requested s) + 1
      \<and> length (activeRequests s') \<le> length (activeRequests s)"
    if "serve_request imSlot (length sl) s = Inr s'" for s s' :: "'a writer_state"
    using that
    by (auto simp: serve_request_def activate_next_def Let_def
        split: list.splits sum.splits if_splits)
  ultimately show ?thesis using s a by (intro exI [of _ st0]) simp
qed

text \<open>
  C5 (as amended). Each time the loop condition is tested, \<open>counter\<close> is the number of
  completed slicings, and the value emitted after completion number \<open>k + 1\<close> is
  \<open>\<lfloor>100 * k / N\<rfloor>\<close>: the count does not include the slicing just completed.
\<close>

theorem progress_after_completion:
  assumes "throttled_start sl = Inr st0"
    and "s \<in> set (streaming_states imSlot (length sl) st0)"
  shows "counter s = length (dataset s)
       \<and> length (progress s) = length (dataset s) + 1
       \<and> (\<forall>k < length (dataset s). progress s ! (k + 1) = 100 * k div length sl)"
proof -
  note d = throttled_invD [OF throttled_inv_states [OF assms]]
  have "progress s ! (k + 1) = 100 * k div length sl" if "k < length (dataset s)" for k
    using that by (simp add: d(7) d(6))
  then show ?thesis by (simp add: d(6) d(7))
qed


theorem outstanding_requests_bounded_witness:
  "(throttled_start [[(0, 1)], [(1, 2)]] :: py_error + unit writer_state)
     = Inr \<lparr>slicings = [], activeSlicings = [[(1, 2)], [(0, 1)]],
            activeRequests = [[(1, 2)], [(0, 1)]], counter = 0, progress = [0],
            requested = [[(1, 2)], [(0, 1)]], dataset = [],
            attrs_axistags = None, succeeded = False\<rparr>
   \<and> streaming_states contiguous_slot 2
        \<lparr>slicings = [], activeSlicings = [[(1, 2)], [(0, 1)]],
         activeRequests = [[(1, 2)], [(0, 1)]], counter = 0, progress = [0],
         requested = [[(1, 2)], [(0, 1)]], dataset = [],
         attrs_axistags = None, succeeded = False\<rparr> ! 1
     = \<lparr>slicings = [], activeSlicings = [[(0, 1)]], activeRequests = [[(0, 1)]],
        counter = 1, progress = [0, 0], requested = [[(1, 2)], [(0, 1)]],
        dataset = [([(1, 2)], write_direct, ())], attrs_axistags = None,
        succeeded = False\<rparr>
   \<and> length [[(0, 1 :: int)]] \<le> min 10 (length ([[(0, 1)], [(1, 2)]] :: slicing list))"
proof -
  let ?sl = "[[(0, 1)], [(1, 2)]] :: slicing list"
  let ?s0 = "\<lparr>slicings = [], activeSlicings = [[(1, 2)], [(0, 1)]],
         activeRequests = [[(1, 2)], [(0, 1)]], counter = 0, progress = [0],
         requested = [[(1, 2)], [(0, 1)]], dataset = [],
         attrs_axistags = None, succeeded = False\<rparr> :: unit writer_state"
  let ?s1 = "\<lparr>slicings = [], activeSlicings = [[(0, 1)]], activeRequests = [[(0, 1)]],
        counter = 1, progress = [0, 0], requested = [[(1, 2)], [(0, 1)]],
        dataset = [([(1, 2)], write_direct, ())], attrs_axistags = None,
        succeeded = False\<rparr> :: unit writer_state"
  have a: "throttled_start ?sl = Inr ?s0" by code_simp
  have b: "streaming_states contiguous_slot 2 ?s0 ! 1 = ?s1" by code_simp
  have l: "1 < length (streaming_states contiguous_slot 2 ?s0)" by code_simp
  have ls: "length ?sl = 2" by simp
  have "?s1 \<in> set (streaming_states contiguous_slot 2 ?s0)"
    using nth_mem [OF l] unfolding b .
  then have m: "?s1 \<in> set (streaming_states contiguous_slot (length ?sl) ?s0)"
    by (simp only: ls)
  from outstanding_requests_bounded [of ?sl contiguous_slot] a m
  have "length (activeRequests ?s1) \<le> min 10 (length ?sl)" by auto
  then show ?thesis using a b by simp
qed

theorem progress_after_completion_witness:
  "(throttled_start [[(0, 1)], [(1, 2)]] :: py_error + unit writer_state)
     = Inr \<lparr>slicings = [], activeSlicings = [[(1, 2)], [(0, 1)]],
            activeRequests = [[(1, 2)], [(0, 1)]], counter = 0, progress = [0],
            requested = [[(1, 2)], [(0, 1)]], dataset = [],
            attrs_axistags = None, succeeded = False\<rparr>
   \<and> streaming_states contiguous_slot 2
        \<lparr>slicings = [], activeSlicings = [[(1, 2)], [(0, 1)]],
         activeRequests = [[(1, 2)], [(0, 1)]], counter = 0, progress = [0],
         requested = [[(1, 2)], [(0, 1)]], dataset = [],
         attrs_axistags = None, succeeded = False\<rparr> ! 2
     = \<lparr>slicings = [], activeSlicings = [], activeRequests = [], counter = 2,
        progress = [0, 0, 50], requested = [[(1, 2)], [(0, 1)]],
        dataset = [([(1, 2)], write_direct, ()), ([(0, 1)], write_direct, ())],
        attrs_axistags = None, succeeded = False\<rparr>
   \<and> [0, 0, 50] ! (1 + 1) = 100 * 1 div length ([[(0, 1)], [(1, 2)]] :: slicing list)"
proof -
  let ?sl = "[[(0, 1)], [(1, 2)]] :: slicing list"
  let ?s0 = "\<lparr>slicings = [], activeSlicings = [[(1, 2)], [(0, 1)]],
         activeRequests = [[(1, 2)], [(0, 1)]], counter = 0, progress = [0],
         requested = [[(1, 2)], [(0, 1)]], dataset = [],
         attrs_axistags = None, succeeded = False\<rparr> :: unit writer_state"
  let ?s2 = "\<lparr>slicings = [], activeSlicings = [], activeRequests = [], counter = 2,
        progress = [0, 0, 50], requested = [[(1, 2)], [(0, 1)]],
        dataset = [([(1, 2)], write_direct, ()), ([(0, 1)], write_direct, ())],
        attrs_axistags = None, succeeded = False\<rparr> :: unit writer_state"
  have a: "throttled_start ?sl = Inr ?s0" by code_simp
  have b: "streaming_states contiguous_slot 2 ?s0 ! 2 = ?s2" by code_simp
  have l: "2 < length (streaming_states contiguous_slot 2 ?s0)" by code_simp
  have ls: "length ?sl = 2" by simp
  have "?s2 \<in> set (streaming_states contiguous_slot 2 ?s0)"
    using nth_mem [OF l] unfolding b .
  then have m: "?s2 \<in> set (streaming_states contiguous_slot (length ?sl) ?s0)"
    by (simp only: ls)
  from progress_after_completion [OF a m]
  have "\<forall>k < length (dataset ?s2). progress ?s2 ! (k + 1) = 100 * k div length ?sl" by blast
  moreover have "1 < length (dataset ?s2)" by simp
  ultimately have "progress ?s2 ! (1 + 1) = 100 * 1 div length ?sl" by blast
  then have "[0, 0, 50] ! (1 + 1) = 100 * 1 div length ?sl" by (simp only: writer_state.simps)
  with a b show ?thesis by blast
qed

text \<open>
  C5 (as stated) fails: with a single slicing, the value emitted after its completion
  is 0, not \<open>\<lfloor>100 * 1 / 1\<rfloor>\<close>.
\<close>

theorem progress_after_completion_counterexample:
  "(throttled_start [[(0, 1)]] :: py_error + unit writer_state)
     = Inr \<lparr>slicings = [], activeSlicings = [[(0, 1)]], activeRequests = [[(0, 1)]],
            counter = 0, progress = [0], requested = [[(0, 1)]], dataset = [],
            attrs_axistags = None, succeeded = False\<rparr>
   \<and> serve_request contiguous_slot 1
        \<lparr>slicings = [], activeSlicings = [[(0, 1)]], activeRequests = [[(0, 1)]],
         counter = 0, progress = [0], requested = [[(0, 1)]], dataset = [],
         attrs_axistags = None, succeeded = False\<rparr>
     = Inr \<lparr>slicings = [], activeSlicings = [], activeRequests = [],
            counter = 1, progress = [0, 0], requested = [[(0, 1)]],
            dataset = [([(0, 1)], write_direct, ())],
            attrs_axistags = None, succeeded = False\<rparr>
   \<and> last [0, 0 :: nat] \<noteq> 100 * length [([(0, 1 :: int)], write_direct, ())] div 1"
  by code_simp

section \<open>Properties of the stack loader\<close>

lemma fold_append_concat:
  "fold (\<lambda>g acc. acc @ f g) xs a = a @ concat (map f xs)"
  by (induction xs arbitrary: a) simp_all

lemma py_split_no_delimiter: "\<not> has_delimiter p \<Longrightarrow> py_split p = [p]"
  by (induction p rule: py_split.induct) auto

lemma py_split_append_delimiter:
  "\<not> has_delimiter p \<Longrightarrow> p = [] \<or> last p \<noteq> CHR ''/'' \<Longrightarrow>
   py_split (p @ ''//'' @ s) = p # py_split s"
  by (induction p rule: py_split.induct) (auto split: if_splits)

lemma py_split_join:
  "ps \<noteq> [] \<Longrightarrow> \<forall>p \<in> set ps. \<not> has_delimiter p \<Longrightarrow>
   \<forall>p \<in> set (butlast ps). p = [] \<or> last p \<noteq> CHR ''/'' \<Longrightarrow>
   py_split (py_join ps) = ps"
proof (induction ps rule: py_join.induct)
  case 1
  then show ?case by simp
next
  case (2 p)
  then show ?case by (simp add: py_split_no_delimiter)
next
  case (3 p q ps)
  have "py_split (p @ ''//'' @ py_join (q # ps)) = p # py_split (py_join (q # ps))"
    by (rule py_split_append_delimiter) (use "3.prems" in auto)
  moreover have "py_split (py_join (q # ps)) = q # ps"
    by (rule "3.IH") (use "3.prems" in auto)
  ultimately show ?case by simp
qed

text \<open>
  C8. Whatever the string, the file list that \<^verbatim>\<open>setupOutputs\<close> builds is the
  concatenation, over the patterns of the string in sorted order, of each pattern's
  sorted matches. The patterns of a string are its parts between occurrences of
  \<^verbatim>\<open>//\<close>: joining patterns that contain no \<^verbatim>\<open>//\<close> and, the last one apart, do
  not end in a slash, and splitting again, gives the patterns back.
\<close>

theorem glob_expansion:
  "(\<forall>self. OpStackLoader_setupOutputs glob fs globStrings = Inr self
       \<longrightarrow> fileNameList self = expand_patterns glob (py_split globStrings))
   \<and> (ps \<noteq> [] \<longrightarrow> (\<forall>p \<in> set ps. \<not> has_delimiter p)
       \<longrightarrow> (\<forall>p \<in> set (butlast ps). p = [] \<or> last p \<noteq> CHR ''/'')
       \<longrightarrow> py_split (py_join ps) = ps)"
proof (intro conjI allI impI)
  fix self
  assume "OpStackLoader_setupOutputs glob fs globStrings = Inr self"
  then show "fileNameList self = expand_patterns glob (py_split globStrings)"
    by (auto simp: OpStackLoader_setupOutputs_def expand_patterns_def fold_append_concat
        Let_def split: if_splits option.splits prod.splits)
next
  assume "ps \<noteq> []" "\<forall>p \<in> set ps. \<not> has_delimiter p"
    "\<forall>p \<in> set (butlast ps). p = [] \<or> last p \<noteq> CHR ''/''"
  then show "py_split (py_join ps) = ps" by (rule py_split_join)
qed

lemma read_files_mismatch:
  "j < length files \<Longrightarrow> fs (files ! j) = Some im \<Longrightarrow> refShape \<noteq> Some (getShape im) \<Longrightarrow>
   \<forall>k < j. fs (files ! k) \<noteq> None \<Longrightarrow> 3 < length key \<Longrightarrow> i + length files \<le> length res \<Longrightarrow>
   \<exists>res'. read_files fs refShape key files i res = (res', Some shape_mismatch)
      \<and> (\<forall>m \<ge> i + j. res' ! m = res ! m)"
proof (induction files arbitrary: i j res)
  case Nil
  then show ?case by simp
next
  case (Cons f files)
  show ?case
  proof (cases j)
    case 0
    then show ?thesis using Cons.prems by simp
  next
    case (Suc j')
    from Cons.prems(4) Suc have "fs f \<noteq> None" by auto
    then obtain im0 where f: "fs f = Some im0" by auto
    show ?thesis
    proof (cases "refShape \<noteq> Some (getShape im0)")
      case True
      then show ?thesis using f by simp
    next
      case False
      have r: "read_files fs refShape key (f # files) i res
             = read_files fs refShape key files (i + 1)
                 (res[i := crop im0 (key ! 0) (key ! 1) (key ! 3)])"
        using f False Cons.prems(5,6) by simp
      have "\<exists>res'. read_files fs refShape key files (i + 1)
                 (res[i := crop im0 (key ! 0) (key ! 1) (key ! 3)]) = (res', Some shape_mismatch)
           \<and> (\<forall>m \<ge> (i + 1) + j'. res' ! m = (res[i := crop im0 (key ! 0) (key ! 1) (key ! 3)]) ! m)"
        by (rule Cons.IH) (use Cons.prems Suc in auto)
      then show ?thesis unfolding r using Suc by auto
    qed
  qed
qed

text \<open>
  C7. A read touches the files \<open>files\<close> selected by the stack-axis slice of the
  request. If the file at position \<open>j\<close> among them has a shape other than the reference
  shape and the files before it can be opened, the read fails with the shape mismatch
  error and plane \<open>j\<close> of the result block is left as it was.
\<close>

theorem mismatching_file_fails:
  assumes "length key = 4"
    and "files = py_slice (fileNameList self) (key ! 2)"
    and "length files \<le> length res"
    and "j < length files"
    and "\<forall>k < j. fs (files ! k) \<noteq> None"
    and "fs (files ! j) = Some im"
    and "info self \<noteq> Some (getShape im)"
  shows "\<exists>res'. OpStackLoader_execute fs self key res = (res', Some shape_mismatch)
           \<and> res' ! j = res ! j"
proof -
  have "\<exists>res'. read_files fs (info self) key files 0 res = (res', Some shape_mismatch)
      \<and> (\<forall>m \<ge> 0 + j. res' ! m = res ! m)"
    by (rule read_files_mismatch) (use assms in auto)
  then show ?thesis using assms(1,2) by (auto simp: OpStackLoader_execute_def)
qed

theorem glob_expansion_witness:
  "OpStackLoader_setupOutputs fixture_glob fixture_fs ''b*.png//a*.png''
     = Inr \<lparr>fileNameList = [''a1.png'', ''a2.png'', ''b1.png''], info = Some (2, 2, 1),
            meta_shape = Some [2, 2, 3, 1]\<rparr>
   \<and> py_join [''b*.png'', ''a*.png''] = ''b*.png//a*.png''
   \<and> py_split ''b*.png//a*.png'' = [''b*.png'', ''a*.png'']
   \<and> expand_patterns fixture_glob [''b*.png'', ''a*.png'']
     = [''a1.png'', ''a2.png'', ''b1.png'']"
proof -
  let ?ps = "[''b*.png'', ''a*.png'']"
  have a: "OpStackLoader_setupOutputs fixture_glob fixture_fs ''b*.png//a*.png''
     = Inr \<lparr>fileNameList = [''a1.png'', ''a2.png'', ''b1.png''], info = Some (2, 2, 1),
            meta_shape = Some [2, 2, 3, 1]\<rparr>"
    by code_simp
  have j: "py_join ?ps = ''b*.png//a*.png''" by simp
  have h1: "?ps \<noteq> []" by simp
  have h2: "\<forall>p \<in> set ?ps. \<not> has_delimiter p" by simp
  have h3: "\<forall>p \<in> set (butlast ?ps). p = [] \<or> last p \<noteq> CHR ''/''" by simp
  from glob_expansion [of fixture_glob fixture_fs "''b*.png//a*.png''" ?ps] a h1 h2 h3
  have s: "py_split (py_join ?ps) = ?ps"
    and f: "[''a1.png'', ''a2.png'', ''b1.png'']
            = expand_patterns fixture_glob (py_split ''b*.png//a*.png'')"
    by auto
  from s have s': "py_split ''b*.png//a*.png'' = ?ps" by (simp only: j)
  from f have "expand_patterns fixture_glob ?ps = [''a1.png'', ''a2.png'', ''b1.png'']"
    by (simp only: s')
  with a j s' show ?thesis by blast
qed

theorem mismatching_file_fails_witness:
  "OpStackLoader_execute fixture_fs
      \<lparr>fileNameList = [''a1.png'', ''a2.png'', ''b1.png''], info = Some (2, 2, 1),
       meta_shape = Some [2, 2, 3, 1]\<rparr>
      [(0, 2), (0, 2), (0, 3), (0, 1)] [[], [], []]
     = ([[[[0], [1]], [[1], [2]]], [], []], Some shape_mismatch)
   \<and> [[[[0], [1]], [[1], [2]]], [], []] ! 1 = ([[], [], []] :: nat list list list list) ! 1"
proof -
  let ?self = "\<lparr>fileNameList = [''a1.png'', ''a2.png'', ''b1.png''], info = Some (2, 2, 1),
       meta_shape = Some [2, 2, 3, 1]\<rparr>"
  let ?key = "[(0, 2), (0, 2), (0, 3), (0, 1)] :: roi_slicing"
  let ?files = "[''a1.png'', ''a2.png'', ''b1.png'']"
  let ?res = "[[], [], []] :: nat list list list list"
  let ?im = "\<lparr>getShape = (3, 2, 1), pixel = (\<lambda>x y c. 7)\<rparr> :: nat image"
  have e: "OpStackLoader_execute fixture_fs ?self ?key ?res
     = ([[[[0], [1]], [[1], [2]]], [], []], Some shape_mismatch)"
    by code_simp
  have h1: "length ?key = 4" by simp
  have h2: "?files = py_slice (fileNameList ?self) (?key ! 2)" by (simp add: py_slice_def)
  have h3: "length ?files \<le> length ?res" by simp
  have h4: "1 < length ?files" by simp
  have h5: "\<forall>k < 1. fixture_fs (?files ! k) \<noteq> None" by (simp add: fixture_fs_def)
  have h6: "fixture_fs (?files ! 1) = Some ?im" by (simp add: fixture_fs_def)
  have h7: "info ?self \<noteq> Some (getShape ?im)" by simp
  from mismatching_file_fails [OF h1 h2 h3 h4 h5 h6 h7]
  obtain res' where "OpStackLoader_execute fixture_fs ?self ?key ?res = (res', Some shape_mismatch)"
    and "res' ! 1 = ?res ! 1" by blast
  with e show ?thesis by simp
qed

end
